theory Spec2Isabelle
  imports Complex_Main "HOL-Library.Word" "HOL-Library.List_Lexorder" "HOL-Library.AList"
begin

unbundle bit_operations_syntax

section \<open>Bytes, errors and the PAR constants\<close>

text \<open>
  A shallow embedding of \<^verbatim>\<open>tw1_par_editorV2_1.py\<close>: the PAR record codec
  (\<^verbatim>\<open>ParReader\<close>, \<^verbatim>\<open>read_par\<close>, \<^verbatim>\<open>ParWriter\<close>, \<^verbatim>\<open>write_par\<close>), the zlib
  envelope (\<^verbatim>\<open>decompress_par_file\<close>, \<^verbatim>\<open>compress_par_file\<close>) and the compare and merge
  logic of the editor (\<^verbatim>\<open>_cmp_run_compare\<close>, \<^verbatim>\<open>_cmp_merge\<close>).

  A Python \<^verbatim>\<open>bytes\<close> object is a list of 8-bit words. Every \<^verbatim>\<open>raise\<close> of the source
  is a value \<open>Inl e\<close> of a sum type.
\<close>

type_synonym byte = "8 word"
type_synonym bytes = "byte list"

datatype error =
    ReadPastEnd            \<comment> \<open>\<^verbatim>\<open>ValueError("Read past end ...")\<close>\<close>
  | UnreasonableLength     \<comment> \<open>\<^verbatim>\<open>ValueError("Unreasonable string length ...")\<close>\<close>
  | NotAParFile            \<comment> \<open>\<^verbatim>\<open>ValueError("Not a PAR file ...")\<close>\<close>
  | UnknownDataType        \<comment> \<open>\<^verbatim>\<open>ValueError("Unknown data type ...")\<close>\<close>
  | UnknownFormat          \<comment> \<open>\<^verbatim>\<open>ValueError("Unknown format ...")\<close>\<close>
  | SingleStreamNotPar     \<comment> \<open>\<^verbatim>\<open>ValueError("Single zlib stream but not PAR ...")\<close>\<close>
  | Stream2NotPar          \<comment> \<open>\<^verbatim>\<open>ValueError("Stream 2 is not PAR ...")\<close>\<close>
  | ZlibError              \<comment> \<open>\<^verbatim>\<open>zlib.error\<close> from the decompressor\<close>
  | StructError            \<comment> \<open>\<^verbatim>\<open>struct.error\<close>: a value outside the packed format's range\<close>
  | OverflowError          \<comment> \<open>\<^verbatim>\<open>int(v)\<close> on a float infinity\<close>
  | ValueError             \<comment> \<open>\<^verbatim>\<open>int(v)\<close> on a float NaN\<close>
  | IndexError             \<comment> \<open>a list index out of range\<close>

definition PAR_MAGIC :: bytes where
  "PAR_MAGIC = [0x50, 0x41, 0x52, 0x00]"

section \<open>The zlib envelope\<close>

text \<open>
  \<^verbatim>\<open>zlib\<close> is a library outside the repository. The two calls the source makes are
  parameters of the model: \<open>zc\<close> is \<^verbatim>\<open>zlib.compress\<close>, and \<open>zd raw\<close> is what a fresh
  \<^verbatim>\<open>zlib.decompressobj()\<close> gives on \<^verbatim>\<open>raw\<close>: the pair of the decompressed output and
  the object's \<^verbatim>\<open>unused_data\<close>, or \<open>None\<close> where it raises \<^verbatim>\<open>zlib.error\<close>.
\<close>

type_synonym zcompress = "bytes \<Rightarrow> bytes"
type_synonym zdecompress = "bytes \<Rightarrow> (bytes \<times> bytes) option"

definition decompress_par_file ::
  "zdecompress \<Rightarrow> bytes \<Rightarrow> error + (bytes \<times> bytes option \<times> bool)" where
  "decompress_par_file zd raw_data =
     (if length raw_data < 4 \<or> raw_data ! 0 \<noteq> 0x78 then
        (if take 4 raw_data = PAR_MAGIC then Inr (raw_data, None, False)
         else Inl UnknownFormat)
      else
        (case zd raw_data of
           None \<Rightarrow> Inl ZlibError
         | Some (wrapper, remaining) \<Rightarrow>
             if remaining = [] then
               (if take 4 wrapper = PAR_MAGIC then Inr (wrapper, None, True)
                else Inl SingleStreamNotPar)
             else
               (case zd remaining of
                  None \<Rightarrow> Inl ZlibError
                | Some (par_data, unused) \<Rightarrow>
                    if take 4 par_data \<noteq> PAR_MAGIC then Inl Stream2NotPar
                    else Inr (par_data, Some wrapper, True))))"

definition compress_par_file :: "zcompress \<Rightarrow> bytes \<Rightarrow> bytes option \<Rightarrow> bytes" where
  "compress_par_file zc par_data wrapper =
     (case wrapper of
        Some w \<Rightarrow> zc w @ zc par_data
      | None \<Rightarrow> zc par_data)"

text \<open>
  What the envelope relies on in zlib, as a predicate on the two parameters: a
  compressed stream starts with the CMF byte \<open>0x78\<close> and is at least four bytes long
  (two header bytes, the deflate data, the Adler-32 checksum), and a decompressor fed
  a stream followed by more bytes returns the stream's content and leaves the rest
  as unused data.
\<close>

definition zlib_stream_laws :: "zcompress \<Rightarrow> zdecompress \<Rightarrow> bool" where
  "zlib_stream_laws zc zd \<longleftrightarrow>
     (\<forall>x. 4 \<le> length (zc x) \<and> zc x ! 0 = 0x78) \<and>
     (\<forall>x rest. zd (zc x @ rest) = Some (x, rest))"

text \<open>
  A small self-delimiting stream format that obeys these laws: the two zlib header
  bytes, two padding bytes, every payload byte behind a \<open>1\<close>, and a final \<open>0\<close>.
\<close>

fun stored_body :: "bytes \<Rightarrow> bytes" where
  "stored_body [] = [0]"
| "stored_body (b # bs) = 1 # b # stored_body bs"

definition stored_compress :: zcompress where
  "stored_compress x = 0x78 # 0x9C # 0 # 0 # stored_body x"

fun stored_unbody :: "bytes \<Rightarrow> (bytes \<times> bytes) option" where
  "stored_unbody [] = None"
| "stored_unbody (t # r) =
     (if t = 0 then Some ([], r)
      else (case r of
              [] \<Rightarrow> None
            | b # r' \<Rightarrow> (case stored_unbody r' of
                           None \<Rightarrow> None
                         | Some (out, unused) \<Rightarrow> Some (b # out, unused))))"

definition stored_decompress :: zdecompress where
  "stored_decompress raw =
     (case raw of
        h1 # h2 # p1 # p2 # body \<Rightarrow>
          if h1 = 0x78 \<and> h2 = 0x9C then stored_unbody body else None
      | _ \<Rightarrow> None)"

section \<open>The data model\<close>

text \<open>
  A Python \<^verbatim>\<open>str\<close> is a list of code points, a Python \<^verbatim>\<open>int\<close> is an \<open>int\<close>.
  Strings are ordered as Python orders them: lexicographically by code point, a proper
  prefix first.

  A Python \<^verbatim>\<open>float\<close> is a binary64 number. The floats of a model are those
  \<^verbatim>\<open>read_f32\<close> returns, binary32 values widened to binary64, and such a float is
  represented by the binary32 bit pattern it is packed to; \<open>f32_float\<close> gives the
  number, infinity or NaN the pattern stands for. The conversion between binary32
  and binary64 is exact on numbers and infinities and sets the quiet bit of a NaN
  (the C conversion \<^verbatim>\<open>struct\<close> relies on does so for a signalling NaN, whose bytes
  \<^verbatim>\<open>01 00 80 7F\<close> are packed again as \<^verbatim>\<open>01 00 C0 7F\<close>): \<open>quiet_nan\<close>. Floats that are
  not binary32 values are outside the model.
\<close>

type_synonym pystr = "nat list"
type_synonym f32 = "32 word"

datatype pyfloat = Finite rat | PInf | NInf | NaN

definition f32_float :: "f32 \<Rightarrow> pyfloat" where
  "f32_float w =
     (let s = bit w 31;
          e = unat (drop_bit 23 w AND 0xFF);
          m = unat (w AND 0x7FFFFF);
          sign = (if s then - 1 else 1 :: rat)
      in if e = 255 then (if m = 0 then (if s then NInf else PInf) else NaN)
         else if e = 0 then Finite (sign * of_nat m / 2 ^ 149)
         else if 150 \<le> e then Finite (sign * of_nat (2 ^ 23 + m) * 2 ^ (e - 150))
         else Finite (sign * of_nat (2 ^ 23 + m) / 2 ^ (150 - e)))"

definition quiet_nan :: "f32 \<Rightarrow> f32" where
  "quiet_nan w =
     (if drop_bit 23 w AND 0xFF = 0xFF \<and> w AND 0x7FFFFF \<noteq> 0 then w OR 0x400000 else w)"

text \<open>
  IEEE binary64 arithmetic on these values, as far as the source uses it:
  subtraction, \<^verbatim>\<open>abs\<close>, \<^verbatim>\<open><\<close> and \<^verbatim>\<open>==\<close>. A finite binary64 number is an integer
  multiple of \<open>2\<^sup>-\<^sup>1\<^sup>0\<^sup>7\<^sup>4\<close>, and so is a difference of two of them; \<open>to_binary64\<close>
  rounds such a number to 53 significant bits, to nearest and ties to even, and
  overflows to an infinity from \<open>2\<^sup>1\<^sup>0\<^sup>2\<^sup>4\<close> on. \<open>bit_length n\<close> is the number of
  binary digits of a positive \<open>n\<close>, and \<open>round_half_even n k\<close> is \<open>n / 2\<^sup>k\<close>
  rounded to an integer.
\<close>

function bit_length :: "int \<Rightarrow> nat" where
  "bit_length n = (if n \<le> 0 then 0 else Suc (bit_length (n div 2)))"
  by auto
termination
  by (relation "measure nat") auto

declare bit_length.simps [simp del]

definition round_half_even :: "int \<Rightarrow> nat \<Rightarrow> int" where
  "round_half_even n k =
     (let d = 2 ^ k; q = n div d; r = n mod d
      in if 2 * r < d then q else if d < 2 * r then q + 1 else if even q then q else q + 1)"

definition to_binary64 :: "rat \<Rightarrow> pyfloat" where
  "to_binary64 x =
     (let n = \<lfloor>x * 2 ^ 1074\<rfloor>;
          len = bit_length \<bar>n\<bar>;
          m = (if len \<le> 53 then n else round_half_even n (len - 53) * 2 ^ (len - 53))
      in if 2 ^ 2098 \<le> \<bar>m\<bar> then (if 0 < m then PInf else NInf)
         else Finite (of_int m / 2 ^ 1074))"

fun float_sub :: "pyfloat \<Rightarrow> pyfloat \<Rightarrow> pyfloat" where
  "float_sub NaN y = NaN"
| "float_sub x NaN = NaN"
| "float_sub PInf PInf = NaN"
| "float_sub NInf NInf = NaN"
| "float_sub PInf y = PInf"
| "float_sub NInf y = NInf"
| "float_sub (Finite a) PInf = NInf"
| "float_sub (Finite a) NInf = PInf"
| "float_sub (Finite a) (Finite b) = to_binary64 (a - b)"

text \<open>
  The literal \<^verbatim>\<open>1e-7\<close> is the binary64 number nearest to \<open>10\<^sup>-\<^sup>7\<close>, whose bytes are
  \<^verbatim>\<open>3E 7A D7 F2 9A BC AF 48\<close>; it is smaller than \<open>10\<^sup>-\<^sup>7\<close>.
\<close>

definition literal_1e_7 :: rat where
  "literal_1e_7 = 944473296573929 / 2 ^ 73"

fun float_abs :: "pyfloat \<Rightarrow> pyfloat" where
  "float_abs NaN = NaN"
| "float_abs PInf = PInf"
| "float_abs NInf = PInf"
| "float_abs (Finite a) = Finite \<bar>a\<bar>"

fun float_lt :: "pyfloat \<Rightarrow> pyfloat \<Rightarrow> bool" where
  "float_lt NaN y = False"
| "float_lt x NaN = False"
| "float_lt x NInf = False"
| "float_lt PInf y = False"
| "float_lt NInf y = True"
| "float_lt (Finite a) PInf = True"
| "float_lt (Finite a) (Finite b) = (a < b)"

fun float_eq :: "pyfloat \<Rightarrow> pyfloat \<Rightarrow> bool" where
  "float_eq NaN y = False"
| "float_eq x NaN = False"
| "float_eq x y = (x = y)"

text \<open>\<^verbatim>\<open>int(v)\<close> on a float truncates towards zero and raises on infinities and NaN.\<close>

fun int_of_float :: "pyfloat \<Rightarrow> error + int" where
  "int_of_float NaN = Inl ValueError"
| "int_of_float PInf = Inl OverflowError"
| "int_of_float NInf = Inl OverflowError"
| "int_of_float (Finite a) = Inr (if 0 \<le> a then \<lfloor>a\<rfloor> else \<lceil>a\<rceil>)"

text \<open>
  The value of a field is a Python object: an int, a float, a str or a list of
  these.
\<close>

datatype pyvalue = VInt int | VFloat f32 | VStr pystr | VList "pyvalue list"

text \<open>
  Python's \<^verbatim>\<open>==\<close> on these values. An int and a float compare by their exact
  numbers; two lists are equal when they have the same length and every element of
  the one is the same object as, or equal to, the element of the other at its index.
  Whether two elements are one object is not visible in values: \<open>py_eq\<close> is the
  comparison of two objects that share no element, and \<open>py_eq_sharing same\<close> the
  comparison of two objects of which, when they are lists, the elements at the
  indices \<open>k\<close> with \<open>same k\<close> are one object. (The lists of this program hold
  numbers and strings: \<^verbatim>\<open>read_par\<close> builds no list of lists.)
\<close>

fun py_eq :: "pyvalue \<Rightarrow> pyvalue \<Rightarrow> bool" where
  "py_eq (VInt a) (VInt b) = (a = b)"
| "py_eq (VInt a) (VFloat w) = float_eq (Finite (of_int a)) (f32_float w)"
| "py_eq (VFloat w) (VInt b) = float_eq (f32_float w) (Finite (of_int b))"
| "py_eq (VFloat v) (VFloat w) = float_eq (f32_float v) (f32_float w)"
| "py_eq (VStr s) (VStr t) = (s = t)"
| "py_eq (VList xs) (VList ys) = list_all2 py_eq xs ys"
| "py_eq x y = False"

definition py_eq_sharing :: "(nat \<Rightarrow> bool) \<Rightarrow> pyvalue \<Rightarrow> pyvalue \<Rightarrow> bool" where
  "py_eq_sharing same a b =
     (case (a, b) of
        (VList xs, VList ys) \<Rightarrow>
          length xs = length ys \<and>
          list_all (\<lambda>(k, x, y). same k \<or> py_eq x y) (enumerate 0 (zip xs ys))
      | _ \<Rightarrow> py_eq a b)"

record ParField =
  dtype :: int
  fvalue :: pyvalue

record ParEntry =
  name :: pystr
  unknown_byte :: int
  unknown_u16a :: int
  unknown_u16b :: int
  entry_fields :: "ParField list"

record ParList =
  unknown1 :: int
  unknown2 :: int
  entries :: "ParEntry list"

record ParFile =
  version :: int
  par_lists :: "ParList list"
  filepath :: string
  wrapper_header :: "bytes option"
  was_compressed :: bool
  trailing_data :: "bytes option"

text \<open>The constructors' defaults: \<^verbatim>\<open>ParList()\<close> and \<^verbatim>\<open>ParFile()\<close>.\<close>

definition new_ParList :: ParList where
  "new_ParList = \<lparr>unknown1 = 0, unknown2 = 0, entries = []\<rparr>"

definition new_ParFile :: ParFile where
  "new_ParFile = \<lparr>version = 0x600, par_lists = [], filepath = [],
     wrapper_header = None, was_compressed = False, trailing_data = None\<rparr>"

section \<open>Compare: \<^verbatim>\<open>_cmp_run_compare\<close>\<close>

text \<open>
  A diff record is the dict \<^verbatim>\<open>_cmp_run_compare\<close> appends to \<^verbatim>\<open>self.cmp_diffs\<close>.
  The three display strings are kept symbolic: a \<open>display\<close> says which text Python
  renders (\<open>Dash\<close> is the em dash, \<open>NumFields n\<close> is \<^verbatim>\<open>f'({n} fields)'\<close>,
  \<open>Fixed4 v\<close> is \<^verbatim>\<open>f"{v:.4f}"\<close>, \<open>Fixed1 v\<close> is \<^verbatim>\<open>f"{v:.1f}"\<close>, \<open>StrOf v\<close> is
  \<^verbatim>\<open>str(v)\<close>, \<open>Items n\<close> is \<^verbatim>\<open>f"[{n} items]"\<close>); the rendering itself is not
  modelled.
\<close>

datatype diff_kind = Changed | InputOnly | SourceOnly

datatype display = Dash | NumFields nat | Fixed4 f32 | Fixed1 f32 | StrOf pyvalue | Items nat

record diff =
  diff_type :: diff_kind
  list_idx :: int
  entry_name :: pystr
  field_idx :: int
  field_label :: pystr
  source_val :: display
  input_val :: display
  original_val :: display
  src_li :: int
  src_ei :: int
  inp_li :: int
  inp_ei :: int

text \<open>
  \<^verbatim>\<open>self.field_labels.get(field_count, fi)\<close>: the label table is loaded from files
  outside the compare logic and is a parameter.
\<close>

type_synonym field_labels = "nat \<Rightarrow> nat \<Rightarrow> pystr option"

text \<open>
  Which list elements of the source are the very objects the input holds is a fact
  about the heap that the values do not show; the compare takes it as a parameter.
  \<open>sh li sei fi k\<close> says that element \<open>k\<close> of the list value of field \<open>fi\<close> of
  the source entry \<open>sei\<close> of list \<open>li\<close> is the same object as element \<open>k\<close> of the
  value of the input field it is compared with. Two models decoded by two calls of
  \<^verbatim>\<open>read_par\<close> share no object; one model compared with itself shares every object.
\<close>

type_synonym sharing = "nat \<Rightarrow> nat \<Rightarrow> nat \<Rightarrow> nat \<Rightarrow> bool"

definition no_sharing :: sharing where
  "no_sharing li sei fi k = False"

definition all_shared :: sharing where
  "all_shared li sei fi k = True"

definition cmp_field_value_str :: "ParField option \<Rightarrow> error + display" where
  "cmp_field_value_str field =
     (case field of
        None \<Rightarrow> Inr Dash
      | Some f \<Rightarrow>
          (case fvalue f of
             VFloat w \<Rightarrow>
               (case int_of_float (f32_float w) of
                  Inl e \<Rightarrow> Inl e
                | Inr i \<Rightarrow>
                    if \<not> float_eq (f32_float w) (Finite (of_int i)) then Inr (Fixed4 w)
                    else Inr (Fixed1 w))
           | VList xs \<Rightarrow>
               if length xs \<le> 4 then Inr (StrOf (VList xs)) else Inr (Items (length xs))
           | v \<Rightarrow> Inr (StrOf v)))"

text \<open>
  \<^verbatim>\<open>_cmp_fields_equal\<close>; \<open>same k\<close> says that the two values, when they are lists, hold
  one and the same object at index \<open>k\<close>.
\<close>

definition cmp_fields_equal :: "(nat \<Rightarrow> bool) \<Rightarrow> ParField \<Rightarrow> ParField \<Rightarrow> bool" where
  "cmp_fields_equal same f1 f2 =
     (if dtype f1 \<noteq> dtype f2 then False
      else (case (fvalue f1, fvalue f2) of
              (VFloat a, VFloat b) \<Rightarrow>
                float_lt (float_abs (float_sub (f32_float a) (f32_float b))) (Finite literal_1e_7)
            | (v1, v2) \<Rightarrow> py_eq_sharing same v1 v2))"

text \<open>\<^verbatim>\<open>xs[i] if i < len(xs) else None\<close>\<close>

definition nth_opt :: "'a list \<Rightarrow> nat \<Rightarrow> 'a option" where
  "nth_opt xs i = (if i < length xs then Some (xs ! i) else None)"

text \<open>
  The dict built by \<^verbatim>\<open>for ei, e in enumerate(entries): by_name[e.name] = (ei, e)\<close>,
  as an association list: a later entry of the same name replaces the earlier one.
\<close>

definition by_name :: "ParEntry list \<Rightarrow> (pystr \<times> nat \<times> ParEntry) list" where
  "by_name es = fold (\<lambda>(ei, e) d. AList.update (name e) (ei, e) d) (enumerate 0 es) []"

text \<open>
  A loop whose body appends records or raises: the records of all rounds in order,
  or the first error.
\<close>

fun collect :: "('a \<Rightarrow> error + 'b list) \<Rightarrow> 'a list \<Rightarrow> error + 'b list" where
  "collect f [] = Inr []"
| "collect f (x # xs) =
     (case f x of
        Inl e \<Rightarrow> Inl e
      | Inr ys \<Rightarrow> (case collect f xs of Inl e \<Rightarrow> Inl e | Inr zs \<Rightarrow> Inr (ys @ zs)))"

text \<open>The branch for a list index that only the input has.\<close>

definition input_only_list :: "nat \<Rightarrow> ParList \<Rightarrow> diff list" where
  "input_only_list li inp_list =
     map (\<lambda>(ei, entry).
            \<lparr>diff_type = InputOnly, list_idx = int li, entry_name = name entry,
             field_idx = - 1, field_label = [], source_val = Dash,
             input_val = NumFields (length (entry_fields entry)), original_val = Dash,
             src_li = - 1, src_ei = - 1, inp_li = int li, inp_ei = int ei\<rparr>)
         (enumerate 0 (entries inp_list))"

text \<open>The branch for a list index that only the source has.\<close>

definition source_only_list :: "nat \<Rightarrow> ParList \<Rightarrow> diff list" where
  "source_only_list li src_list =
     map (\<lambda>(ei, entry).
            \<lparr>diff_type = SourceOnly, list_idx = int li, entry_name = name entry,
             field_idx = - 1, field_label = [], source_val = NumFields (length (entry_fields entry)),
             input_val = Dash, original_val = Dash,
             src_li = int li, src_ei = int ei, inp_li = - 1, inp_ei = - 1\<rparr>)
         (enumerate 0 (entries src_list))"

text \<open>The body of \<^verbatim>\<open>for fi in range(max_fields)\<close>.\<close>

definition compare_field ::
  "sharing \<Rightarrow> field_labels \<Rightarrow> nat \<Rightarrow> nat \<Rightarrow> pystr \<Rightarrow> nat \<times> ParEntry \<Rightarrow> nat \<times> ParEntry \<Rightarrow>
   ParEntry option \<Rightarrow> nat \<Rightarrow> error + diff list" where
  "compare_field sh labels field_count li nm s i oe fi =
     (case (s, i) of ((sei, se), (iei, ie)) \<Rightarrow>
        let sf = nth_opt (entry_fields se) fi;
            inf_f = nth_opt (entry_fields ie) fi;
            of_f = (case oe of None \<Rightarrow> None | Some e \<Rightarrow> nth_opt (entry_fields e) fi)
        in if (case (sf, inf_f) of (Some a, Some b) \<Rightarrow> cmp_fields_equal (sh li sei fi) a b | _ \<Rightarrow> False)
           then Inr []
           else
             let label = (case labels field_count fi of None \<Rightarrow> [] | Some l \<Rightarrow> l)
             in (case cmp_field_value_str sf of
                   Inl e \<Rightarrow> Inl e
                 | Inr sv \<Rightarrow>
                     (case cmp_field_value_str inf_f of
                        Inl e \<Rightarrow> Inl e
                      | Inr iv \<Rightarrow>
                          (case (case of_f of None \<Rightarrow> Inr Dash
                                            | Some f \<Rightarrow> cmp_field_value_str of_f) of
                             Inl e \<Rightarrow> Inl e
                           | Inr ov \<Rightarrow>
                               Inr [\<lparr>diff_type = Changed, list_idx = int li, entry_name = nm,
                                     field_idx = int fi, field_label = label,
                                     source_val = sv, input_val = iv, original_val = ov,
                                     src_li = int li, src_ei = int sei,
                                     inp_li = int li, inp_ei = int iei\<rparr>]))))"

text \<open>The body of \<^verbatim>\<open>for name in sorted(all_names)\<close>.\<close>

definition compare_name ::
  "sharing \<Rightarrow> field_labels \<Rightarrow> nat \<Rightarrow> nat \<Rightarrow> (pystr \<times> nat \<times> ParEntry) list \<Rightarrow>
   (pystr \<times> nat \<times> ParEntry) list \<Rightarrow> (pystr \<times> nat \<times> ParEntry) list \<Rightarrow>
   pystr \<Rightarrow> error + diff list" where
  "compare_name sh labels field_count li src_by_name inp_by_name orig_by_name nm =
     (case (map_of src_by_name nm, map_of inp_by_name nm) of
        (Some (sei, se), None) \<Rightarrow>
          Inr [\<lparr>diff_type = SourceOnly, list_idx = int li, entry_name = nm,
                field_idx = - 1, field_label = [],
                source_val = NumFields (length (entry_fields se)), input_val = Dash,
                original_val = Dash,
                src_li = int li, src_ei = int sei, inp_li = - 1, inp_ei = - 1\<rparr>]
      | (None, Some (iei, ie)) \<Rightarrow>
          Inr [\<lparr>diff_type = InputOnly, list_idx = int li, entry_name = nm,
                field_idx = - 1, field_label = [],
                source_val = Dash, input_val = NumFields (length (entry_fields ie)),
                original_val = Dash,
                src_li = - 1, src_ei = - 1, inp_li = int li, inp_ei = int iei\<rparr>]
      | (Some (sei, se), Some (iei, ie)) \<Rightarrow>
          let oe = (case map_of orig_by_name nm of None \<Rightarrow> None | Some (oi, e) \<Rightarrow> Some e);
              max_fields = max (length (entry_fields se)) (length (entry_fields ie))
          in collect (compare_field sh labels field_count li nm (sei, se) (iei, ie) oe)
               [0 ..< max_fields]
      | (None, None) \<Rightarrow> Inr [])"

text \<open>The part of the loop body where both lists exist.\<close>

definition compare_lists ::
  "sharing \<Rightarrow> field_labels \<Rightarrow> nat \<Rightarrow> ParList \<Rightarrow> ParList \<Rightarrow> ParList option \<Rightarrow> error + diff list" where
  "compare_lists sh labels li src_list inp_list orig_list =
     (let src_by_name = by_name (entries src_list);
          inp_by_name = by_name (entries inp_list);
          orig_by_name = (case orig_list of None \<Rightarrow> [] | Some ol \<Rightarrow> by_name (entries ol));
          field_count =
            (if entries src_list \<noteq> [] then length (entry_fields (entries src_list ! 0))
             else if entries inp_list \<noteq> [] then length (entry_fields (entries inp_list ! 0))
             else 0);
          all_names = set (map fst src_by_name @ map fst inp_by_name)
      in collect (compare_name sh labels field_count li src_by_name inp_by_name orig_by_name)
           (sorted_list_of_set all_names))"

text \<open>The body of \<^verbatim>\<open>for li in range(max_lists)\<close>.\<close>

definition compare_index ::
  "sharing \<Rightarrow> field_labels \<Rightarrow> ParFile \<Rightarrow> ParFile \<Rightarrow> ParFile option \<Rightarrow> nat \<Rightarrow> error + diff list" where
  "compare_index sh labels src inp orig li =
     (let src_list = nth_opt (par_lists src) li;
          inp_list = nth_opt (par_lists inp) li;
          orig_list = (case orig of None \<Rightarrow> None | Some p \<Rightarrow> nth_opt (par_lists p) li)
      in (case (src_list, inp_list) of
            (None, Some il) \<Rightarrow> Inr (input_only_list li il)
          | (Some sl, None) \<Rightarrow> Inr (source_only_list li sl)
          | (Some sl, Some il) \<Rightarrow> compare_lists sh labels li sl il orig_list
          | (None, None) \<Rightarrow> Inr []))"

text \<open>
  \<^verbatim>\<open>_cmp_run_compare\<close> for a loaded source and input: the value of \<^verbatim>\<open>self.cmp_diffs\<close>
  when the method returns, or the exception it raises. (The method returns at once,
  with no diffs computed, when the source or the input is not loaded; the optional
  original file is \<open>orig\<close>.)
\<close>

definition cmp_run_compare ::
  "sharing \<Rightarrow> field_labels \<Rightarrow> ParFile \<Rightarrow> ParFile \<Rightarrow> ParFile option \<Rightarrow> error + diff list" where
  "cmp_run_compare sh labels src inp orig =
     (let max_lists = max (length (par_lists src)) (length (par_lists inp))
      in collect (compare_index sh labels src inp orig) [0 ..< max_lists])"

section \<open>Merge: \<^verbatim>\<open>_cmp_merge\<close> and the selection\<close>

text \<open>
  Python indexing \<^verbatim>\<open>xs[i]\<close> and item assignment \<^verbatim>\<open>xs[i] = v\<close>: a negative index
  counts from the end, an index out of range raises \<^verbatim>\<open>IndexError\<close>.
\<close>

definition py_index :: "'a list \<Rightarrow> int \<Rightarrow> error + nat" where
  "py_index xs i =
     (if 0 \<le> i \<and> i < int (length xs) then Inr (nat i)
      else if i < 0 \<and> - int (length xs) \<le> i then Inr (nat (int (length xs) + i))
      else Inl IndexError)"

definition py_get :: "'a list \<Rightarrow> int \<Rightarrow> error + 'a" where
  "py_get xs i = (case py_index xs i of Inl e \<Rightarrow> Inl e | Inr j \<Rightarrow> Inr (xs ! j))"

definition py_set :: "'a list \<Rightarrow> int \<Rightarrow> 'a \<Rightarrow> error + 'a list" where
  "py_set xs i v = (case py_index xs i of Inl e \<Rightarrow> Inl e | Inr j \<Rightarrow> Inr (xs[j := v]))"

text \<open>
  \<^verbatim>\<open>while len(src_entry.fields) <= fi: src_entry.fields.append(ParField(0, 0))\<close>
\<close>

definition pad_fields :: "ParField list \<Rightarrow> int \<Rightarrow> ParField list" where
  "pad_fields fs fi =
     fs @ replicate (nat (fi + 1 - int (length fs))) \<lparr>dtype = 0, fvalue = VInt 0\<rparr>"

text \<open>\<^verbatim>\<open>while len(src.lists) <= ili: src.lists.append(ParList())\<close>\<close>

definition pad_lists :: "ParList list \<Rightarrow> int \<Rightarrow> ParList list" where
  "pad_lists ls ili = ls @ replicate (nat (ili + 1 - int (length ls))) new_ParList"

text \<open>
  \<^verbatim>\<open>copy.deepcopy(v) if isinstance(v, list) else v\<close>: values carry no object
  identity here, so the copy of a value is the value.
\<close>

definition copy_value :: "pyvalue \<Rightarrow> pyvalue" where
  "copy_value v = v"

text \<open>
  The merge state: the source model, mutated in place by the source, and the two
  counters \<^verbatim>\<open>changed_count\<close> and \<^verbatim>\<open>added_count\<close>.
\<close>

type_synonym merge_state = "ParFile \<times> nat \<times> nat"

text \<open>The \<^verbatim>\<open>'changed'\<close> branch of the loop body.\<close>

definition merge_changed :: "ParFile \<Rightarrow> diff \<Rightarrow> merge_state \<Rightarrow> error + merge_state" where
  "merge_changed inp d st =
     (case st of (src, changed_count, added_count) \<Rightarrow>
        let sli = src_li d; sei = src_ei d; ili = inp_li d; iei = inp_ei d; fi = field_idx d
        in if 0 \<le> sli \<and> 0 \<le> sei \<and> sli < int (length (par_lists src))
              \<and> sei < int (length (entries (par_lists src ! nat sli)))
           then
             let src_list = par_lists src ! nat sli;
                 src_entry = entries src_list ! nat sei
             in if 0 \<le> ili \<and> 0 \<le> iei \<and> ili < int (length (par_lists inp))
                   \<and> iei < int (length (entries (par_lists inp ! nat ili)))
                then
                  let inp_entry = entries (par_lists inp ! nat ili) ! nat iei
                  in if fi < int (length (entry_fields inp_entry))
                     then
                       let padded = pad_fields (entry_fields src_entry) fi
                       in (case py_get (entry_fields inp_entry) fi of
                             Inl e \<Rightarrow> Inl e
                           | Inr inp_f \<Rightarrow>
                               (case py_set padded fi
                                       \<lparr>dtype = dtype inp_f, fvalue = copy_value (fvalue inp_f)\<rparr> of
                                  Inl e \<Rightarrow> Inl e
                                | Inr fs \<Rightarrow>
                                    Inr (src\<lparr>par_lists := (par_lists src)
                                               [nat sli := src_list
                                                  \<lparr>entries := (entries src_list)
                                                     [nat sei := src_entry\<lparr>entry_fields := fs\<rparr>]\<rparr>]\<rparr>,
                                         changed_count + 1, added_count)))
                     else Inr st
                else Inr st
           else Inr st)"

text \<open>The \<^verbatim>\<open>'input_only'\<close> branch of the loop body.\<close>

definition merge_input_only :: "ParFile \<Rightarrow> diff \<Rightarrow> merge_state \<Rightarrow> error + merge_state" where
  "merge_input_only inp d st =
     (case st of (src, changed_count, added_count) \<Rightarrow>
        let ili = inp_li d; iei = inp_ei d
        in if 0 \<le> ili \<and> 0 \<le> iei \<and> ili < int (length (par_lists inp))
           then
             (case py_get (entries (par_lists inp ! nat ili)) iei of
                Inl e \<Rightarrow> Inl e
              | Inr inp_entry \<Rightarrow>
                  let ls = pad_lists (par_lists src) ili;
                      new_entry = \<lparr>name = name inp_entry,
                                   unknown_byte = unknown_byte inp_entry,
                                   unknown_u16a = unknown_u16a inp_entry,
                                   unknown_u16b = unknown_u16b inp_entry,
                                   entry_fields = map (\<lambda>f. \<lparr>dtype = dtype f,
                                                      fvalue = copy_value (fvalue f)\<rparr>)
                                              (entry_fields inp_entry)\<rparr>;
                      target = ls ! nat ili;
                      exists = (\<exists>e \<in> set (entries target). name e = name new_entry)
                  in if \<not> exists
                     then Inr (src\<lparr>par_lists :=
                                      ls[nat ili := target\<lparr>entries := entries target @ [new_entry]\<rparr>]\<rparr>,
                               changed_count, added_count + 1)
                     else Inr (src\<lparr>par_lists := ls\<rparr>, changed_count, added_count))
           else Inr st)"

text \<open>One round of \<^verbatim>\<open>for _, d in selected\<close>; a \<^verbatim>\<open>'source_only'\<close> record matches no branch.\<close>

definition merge_step :: "ParFile \<Rightarrow> diff \<Rightarrow> merge_state \<Rightarrow> error + merge_state" where
  "merge_step inp d st =
     (if diff_type d = Changed then merge_changed inp d st
      else if diff_type d = InputOnly then merge_input_only inp d st
      else Inr st)"

fun merge_loop :: "ParFile \<Rightarrow> diff list \<Rightarrow> merge_state \<Rightarrow> error + merge_state" where
  "merge_loop inp [] st = Inr st"
| "merge_loop inp (d # ds) st =
     (case merge_step inp d st of Inl e \<Rightarrow> Inl e | Inr st' \<Rightarrow> merge_loop inp ds st')"

text \<open>
  The checkbox dict \<^verbatim>\<open>self.cmp_checks\<close> and the selection
  \<^verbatim>\<open>[(i, d) for i, d in enumerate(self.cmp_diffs) if self.cmp_checks.get(i, False)]\<close>.
\<close>

type_synonym checks = "nat \<Rightarrow> bool option"

definition checked :: "checks \<Rightarrow> nat \<Rightarrow> bool" where
  "checked cs i = (case cs i of None \<Rightarrow> False | Some b \<Rightarrow> b)"

definition selected_diffs :: "diff list \<Rightarrow> checks \<Rightarrow> diff list" where
  "selected_diffs ds cs = map snd (filter (\<lambda>(i, d). checked cs i) (enumerate 0 ds))"

text \<open>
  \<^verbatim>\<open>_cmp_merge\<close> on a loaded source and input, once the user has confirmed the
  dialog: the mutated source and the two counts it reports. With nothing selected
  the method returns before the loop.
\<close>

definition cmp_merge ::
  "ParFile \<Rightarrow> ParFile \<Rightarrow> diff list \<Rightarrow> checks \<Rightarrow> error + merge_state" where
  "cmp_merge src inp ds cs =
     (let selected = selected_diffs ds cs
      in if selected = [] then Inr (src, 0, 0)
         else merge_loop inp selected (src, 0, 0))"

text \<open>
  \<^verbatim>\<open>_cmp_on_tree_click\<close> for a click in the check column of row \<open>idx\<close>, and
  \<^verbatim>\<open>_cmp_select_all\<close>: their effect on \<^verbatim>\<open>self.cmp_checks\<close>.
\<close>

definition cmp_on_tree_click :: "diff list \<Rightarrow> checks \<Rightarrow> nat \<Rightarrow> checks" where
  "cmp_on_tree_click ds cs idx =
     (if diff_type (ds ! idx) = SourceOnly then cs
      else cs(idx \<mapsto> \<not> checked cs idx))"

definition cmp_select_all :: "diff list \<Rightarrow> checks \<Rightarrow> checks" where
  "cmp_select_all ds cs =
     fold (\<lambda>(i, d) c. if diff_type d \<noteq> SourceOnly then c(i \<mapsto> True) else c) (enumerate 0 ds) cs"

section \<open>The copied field value as an object\<close>







section \<open>The byte cursor: \<^verbatim>\<open>ParReader\<close> and \<^verbatim>\<open>ParWriter\<close>\<close>

text \<open>
  The reader's state is the buffer and a position; it only ever reads forward, so it
  is represented by the bytes not yet read, \<^verbatim>\<open>data[pos:]\<close>. A read returns its value
  and the remaining bytes, or the error it raises. The test
  \<^verbatim>\<open>self.pos + n > self.size\<close> is \<open>length bs < n\<close> on the remaining bytes.

  \<^verbatim>\<open>struct\<close> packs and unpacks little-endian: \<open>le_nat\<close> is the number a byte
  sequence stands for, \<open>nat_le k v\<close> the \<open>k\<close> bytes of \<open>v\<close>. Unpacking a float
  widens the binary32 value to binary64 and packing narrows it again; both
  conversions quiet a signalling NaN.
\<close>

fun le_nat :: "bytes \<Rightarrow> nat" where
  "le_nat [] = 0"
| "le_nat (b # bs) = unat b + 256 * le_nat bs"

fun nat_le :: "nat \<Rightarrow> nat \<Rightarrow> bytes" where
  "nat_le 0 v = []"
| "nat_le (Suc k) v = of_nat (v mod 256) # nat_le k (v div 256)"

text \<open>The signed reading of a \<open>k\<close>-byte number (two's complement).\<close>

definition signed_of :: "nat \<Rightarrow> nat \<Rightarrow> int" where
  "signed_of k v = (if 2 ^ (8 * k - 1) \<le> v then int v - 2 ^ (8 * k) else int v)"

definition read_bytes :: "nat \<Rightarrow> bytes \<Rightarrow> error + (bytes \<times> bytes)" where
  "read_bytes n bs = (if length bs < n then Inl ReadPastEnd else Inr (take n bs, drop n bs))"

definition read_u8 :: "bytes \<Rightarrow> error + (int \<times> bytes)" where
  "read_u8 bs =
     (case read_bytes 1 bs of Inl e \<Rightarrow> Inl e | Inr (b, rest) \<Rightarrow> Inr (int (le_nat b), rest))"

definition read_i8 :: "bytes \<Rightarrow> error + (int \<times> bytes)" where
  "read_i8 bs =
     (case read_bytes 1 bs of Inl e \<Rightarrow> Inl e | Inr (b, rest) \<Rightarrow> Inr (signed_of 1 (le_nat b), rest))"

definition read_u16 :: "bytes \<Rightarrow> error + (int \<times> bytes)" where
  "read_u16 bs =
     (case read_bytes 2 bs of Inl e \<Rightarrow> Inl e | Inr (b, rest) \<Rightarrow> Inr (int (le_nat b), rest))"

definition read_u32 :: "bytes \<Rightarrow> error + (int \<times> bytes)" where
  "read_u32 bs =
     (case read_bytes 4 bs of Inl e \<Rightarrow> Inl e | Inr (b, rest) \<Rightarrow> Inr (int (le_nat b), rest))"

definition read_i32 :: "bytes \<Rightarrow> error + (int \<times> bytes)" where
  "read_i32 bs =
     (case read_bytes 4 bs of Inl e \<Rightarrow> Inl e | Inr (b, rest) \<Rightarrow> Inr (signed_of 4 (le_nat b), rest))"

definition read_f32 :: "bytes \<Rightarrow> error + (f32 \<times> bytes)" where
  "read_f32 bs =
     (case read_bytes 4 bs of
        Inl e \<Rightarrow> Inl e
      | Inr (b, rest) \<Rightarrow> Inr (quiet_nan (of_nat (le_nat b)), rest))"

definition read_u64 :: "bytes \<Rightarrow> error + (int \<times> bytes)" where
  "read_u64 bs =
     (case read_bytes 8 bs of Inl e \<Rightarrow> Inl e | Inr (b, rest) \<Rightarrow> Inr (int (le_nat b), rest))"

text \<open>
  \<^verbatim>\<open>raw.decode('ascii', errors='replace')\<close>: a byte below 128 is its code point, any
  other byte becomes U+FFFD. \<^verbatim>\<open>s.encode('ascii', errors='replace')\<close>: a code point
  below 128 is its byte, any other becomes \<^verbatim>\<open>?\<close>.
\<close>

definition decode_ascii :: "bytes \<Rightarrow> pystr" where
  "decode_ascii raw = map (\<lambda>b. if unat b < 128 then unat b else 0xFFFD) raw"

definition encode_ascii :: "pystr \<Rightarrow> bytes" where
  "encode_ascii s = map (\<lambda>c. if c < 128 then of_nat c else 0x3F) s"

definition read_delphi_string :: "bytes \<Rightarrow> error + (pystr \<times> bytes)" where
  "read_delphi_string bs =
     (case read_u32 bs of
        Inl e \<Rightarrow> Inl e
      | Inr (len, rest) \<Rightarrow>
          if len > 1000000 then Inl UnreasonableLength
          else if len = 0 then Inr ([], rest)
          else (case read_bytes (nat len) rest of
                  Inl e \<Rightarrow> Inl e
                | Inr (raw, rest') \<Rightarrow> Inr (decode_ascii raw, rest')))"

text \<open>
  The writer's buffer only grows: a write is the bytes it appends, or the
  \<^verbatim>\<open>struct.error\<close> it raises for a value outside the range of a format that the
  source does not mask.
\<close>

definition write_u8 :: "int \<Rightarrow> bytes" where
  "write_u8 v = nat_le 1 (nat (v mod 2 ^ 8))"

definition write_i8 :: "int \<Rightarrow> error + bytes" where
  "write_i8 v =
     (if - (2 ^ 7) \<le> v \<and> v < 2 ^ 7 then Inr (nat_le 1 (nat (v mod 2 ^ 8))) else Inl StructError)"

definition write_u16 :: "int \<Rightarrow> bytes" where
  "write_u16 v = nat_le 2 (nat (v mod 2 ^ 16))"

definition write_u32 :: "int \<Rightarrow> bytes" where
  "write_u32 v = nat_le 4 (nat (v mod 2 ^ 32))"

definition write_i32 :: "int \<Rightarrow> error + bytes" where
  "write_i32 v =
     (if - (2 ^ 31) \<le> v \<and> v < 2 ^ 31 then Inr (nat_le 4 (nat (v mod 2 ^ 32)))
      else Inl StructError)"

definition write_f32 :: "f32 \<Rightarrow> bytes" where
  "write_f32 w = nat_le 4 (unat (quiet_nan w))"

definition write_u64 :: "int \<Rightarrow> error + bytes" where
  "write_u64 v = (if 0 \<le> v \<and> v < 2 ^ 64 then Inr (nat_le 8 (nat v)) else Inl StructError)"

definition write_delphi_string :: "pystr \<Rightarrow> bytes" where
  "write_delphi_string s =
     (let encoded = encode_ascii s in write_u32 (int (length encoded)) @ encoded)"

section \<open>The record codec: \<^verbatim>\<open>read_par\<close> and \<^verbatim>\<open>write_par\<close>\<close>

text \<open>\<^verbatim>\<open>for _ in range(n): values.append(read())\<close>\<close>

fun read_n :: "(bytes \<Rightarrow> error + ('a \<times> bytes)) \<Rightarrow> nat \<Rightarrow> bytes \<Rightarrow> error + ('a list \<times> bytes)" where
  "read_n rd 0 bs = Inr ([], bs)"
| "read_n rd (Suc n) bs =
     (case rd bs of
        Inl e \<Rightarrow> Inl e
      | Inr (x, rest) \<Rightarrow>
          (case read_n rd n rest of
             Inl e \<Rightarrow> Inl e
           | Inr (xs, rest') \<Rightarrow> Inr (x # xs, rest')))"

text \<open>The format characters \<^verbatim>\<open>'i'\<close>, \<^verbatim>\<open>'f'\<close> and \<^verbatim>\<open>'I'\<close>.\<close>

datatype fmt_char = Fmt_i | Fmt_f | Fmt_I

definition read_element :: "fmt_char \<Rightarrow> bytes \<Rightarrow> error + (pyvalue \<times> bytes)" where
  "read_element fmt bs =
     (case fmt of
        Fmt_i \<Rightarrow> (case read_i32 bs of Inl e \<Rightarrow> Inl e | Inr (v, rest) \<Rightarrow> Inr (VInt v, rest))
      | Fmt_f \<Rightarrow> (case read_f32 bs of Inl e \<Rightarrow> Inl e | Inr (v, rest) \<Rightarrow> Inr (VFloat v, rest))
      | Fmt_I \<Rightarrow> (case read_u32 bs of Inl e \<Rightarrow> Inl e | Inr (v, rest) \<Rightarrow> Inr (VInt v, rest)))"

definition read_extra_array :: "fmt_char \<Rightarrow> bytes \<Rightarrow> error + (pyvalue \<times> bytes)" where
  "read_extra_array fmt bs =
     (case read_u64 bs of
        Inl e \<Rightarrow> Inl e
      | Inr (check, rest) \<Rightarrow>
          if check = 0 then Inr (VList [], rest)
          else (case read_u32 rest of
                  Inl e \<Rightarrow> Inl e
                | Inr (len, rest') \<Rightarrow>
                    (case read_n (read_element fmt) (nat len) rest' of
                       Inl e \<Rightarrow> Inl e
                     | Inr (values, rest'') \<Rightarrow> Inr (VList values, rest''))))"

definition read_string_element :: "bytes \<Rightarrow> error + (pyvalue \<times> bytes)" where
  "read_string_element bs =
     (case read_delphi_string bs of Inl e \<Rightarrow> Inl e | Inr (s, rest) \<Rightarrow> Inr (VStr s, rest))"

definition read_extra_string_array :: "bytes \<Rightarrow> error + (pyvalue \<times> bytes)" where
  "read_extra_string_array bs =
     (case read_u64 bs of
        Inl e \<Rightarrow> Inl e
      | Inr (check, rest) \<Rightarrow>
          if check = 0 then Inr (VList [], rest)
          else (case read_u32 rest of
                  Inl e \<Rightarrow> Inl e
                | Inr (len, rest') \<Rightarrow>
                    (case read_n read_string_element (nat len) rest' of
                       Inl e \<Rightarrow> Inl e
                     | Inr (values, rest'') \<Rightarrow> Inr (VList values, rest''))))"

text \<open>The dispatch on the type tag in \<^verbatim>\<open>read_par\<close>.\<close>

definition read_field_value :: "int \<Rightarrow> bytes \<Rightarrow> error + (pyvalue \<times> bytes)" where
  "read_field_value dt bs =
     (if dt = 0 then (case read_i32 bs of Inl e \<Rightarrow> Inl e | Inr (v, rest) \<Rightarrow> Inr (VInt v, rest))
      else if dt = 1 then (case read_f32 bs of Inl e \<Rightarrow> Inl e | Inr (v, rest) \<Rightarrow> Inr (VFloat v, rest))
      else if dt = 2 then (case read_u32 bs of Inl e \<Rightarrow> Inl e | Inr (v, rest) \<Rightarrow> Inr (VInt v, rest))
      else if dt = 3 then read_string_element bs
      else if dt = 4 then read_extra_array Fmt_i bs
      else if dt = 5 then read_extra_array Fmt_f bs
      else if dt = 6 then read_extra_array Fmt_I bs
      else if dt = 7 then read_extra_string_array bs
      else Inl UnknownDataType)"

text \<open>\<^verbatim>\<open>for dtype in type_list: ...; entry.fields.append(field)\<close>\<close>

fun read_fields :: "int list \<Rightarrow> bytes \<Rightarrow> error + (ParField list \<times> bytes)" where
  "read_fields [] bs = Inr ([], bs)"
| "read_fields (dt # dts) bs =
     (case read_field_value dt bs of
        Inl e \<Rightarrow> Inl e
      | Inr (v, rest) \<Rightarrow>
          (case read_fields dts rest of
             Inl e \<Rightarrow> Inl e
           | Inr (fs, rest') \<Rightarrow> Inr (\<lparr>dtype = dt, fvalue = v\<rparr> # fs, rest')))"

definition read_entry :: "bytes \<Rightarrow> error + (ParEntry \<times> bytes)" where
  "read_entry bs =
     (case read_delphi_string bs of Inl e \<Rightarrow> Inl e | Inr (nm, r1) \<Rightarrow>
      case read_i8 r1 of Inl e \<Rightarrow> Inl e | Inr (ub, r2) \<Rightarrow>
      case read_u16 r2 of Inl e \<Rightarrow> Inl e | Inr (data_entry_count, r3) \<Rightarrow>
      case read_u16 r3 of Inl e \<Rightarrow> Inl e | Inr (ua, r4) \<Rightarrow>
      case read_u16 r4 of Inl e \<Rightarrow> Inl e | Inr (ub16, r5) \<Rightarrow>
      case read_n read_u8 (nat data_entry_count) r5 of Inl e \<Rightarrow> Inl e | Inr (type_list, r6) \<Rightarrow>
      case read_fields type_list r6 of Inl e \<Rightarrow> Inl e | Inr (fs, r7) \<Rightarrow>
        Inr (\<lparr>name = nm, unknown_byte = ub, unknown_u16a = ua, unknown_u16b = ub16,
              entry_fields = fs\<rparr>, r7))"

definition read_list :: "bytes \<Rightarrow> error + (ParList \<times> bytes)" where
  "read_list bs =
     (case read_u32 bs of Inl e \<Rightarrow> Inl e | Inr (u1, r1) \<Rightarrow>
      case read_u32 r1 of Inl e \<Rightarrow> Inl e | Inr (u2, r2) \<Rightarrow>
      case read_u32 r2 of Inl e \<Rightarrow> Inl e | Inr (entry_count, r3) \<Rightarrow>
      case read_n read_entry (nat entry_count) r3 of Inl e \<Rightarrow> Inl e | Inr (es, r4) \<Rightarrow>
        Inr (\<lparr>unknown1 = u1, unknown2 = u2, entries = es\<rparr>, r4))"

definition read_par :: "bytes \<Rightarrow> error + ParFile" where
  "read_par data =
     (case read_bytes 4 data of Inl e \<Rightarrow> Inl e | Inr (magic, r1) \<Rightarrow>
      if magic \<noteq> PAR_MAGIC then Inl NotAParFile else
      case read_u32 r1 of Inl e \<Rightarrow> Inl e | Inr (ver, r2) \<Rightarrow>
      case read_u32 r2 of Inl e \<Rightarrow> Inl e | Inr (list_count, r3) \<Rightarrow>
      case read_u32 r3 of Inl e \<Rightarrow> Inl e | Inr (pad, r4) \<Rightarrow>
      case read_n read_list (nat list_count) r4 of Inl e \<Rightarrow> Inl e | Inr (ls, r5) \<Rightarrow>
        Inr (new_ParFile\<lparr>version := ver, par_lists := ls,
               trailing_data := (if r5 \<noteq> [] then Some r5 else None)\<rparr>))"

text \<open>
  The coercions \<^verbatim>\<open>int(val)\<close>, \<^verbatim>\<open>float(val)\<close> and \<^verbatim>\<open>str(val)\<close> of \<^verbatim>\<open>write_par\<close>. On a
  value of the shape its type tag announces they return the value. \<^verbatim>\<open>int\<close> of a
  float truncates; \<^verbatim>\<open>int\<close> and \<^verbatim>\<open>float\<close> of a list raise \<^verbatim>\<open>TypeError\<close>. The other
  conversions (parsing a str as a number, rounding an int to a float, rendering a
  number or a list as text) are not modelled and are marked as such.
\<close>

datatype werror = Raised error | TypeError | ConversionNotModelled

definition py_int :: "pyvalue \<Rightarrow> werror + int" where
  "py_int v =
     (case v of
        VInt i \<Rightarrow> Inr i
      | VFloat w \<Rightarrow> (case int_of_float (f32_float w) of Inl e \<Rightarrow> Inl (Raised e) | Inr i \<Rightarrow> Inr i)
      | VStr s \<Rightarrow> Inl ConversionNotModelled
      | VList xs \<Rightarrow> Inl TypeError)"

definition py_float :: "pyvalue \<Rightarrow> werror + f32" where
  "py_float v =
     (case v of
        VFloat w \<Rightarrow> Inr w
      | VInt i \<Rightarrow> Inl ConversionNotModelled
      | VStr s \<Rightarrow> Inl ConversionNotModelled
      | VList xs \<Rightarrow> Inl TypeError)"

definition py_str :: "pyvalue \<Rightarrow> werror + pystr" where
  "py_str v = (case v of VStr s \<Rightarrow> Inr s | _ \<Rightarrow> Inl ConversionNotModelled)"

text \<open>The truth value of an object, as \<^verbatim>\<open>if not values\<close> tests it.\<close>

definition py_truth :: "pyvalue \<Rightarrow> bool" where
  "py_truth v =
     (case v of
        VInt i \<Rightarrow> i \<noteq> 0
      | VFloat w \<Rightarrow> \<not> float_eq (f32_float w) (Finite 0)
      | VStr s \<Rightarrow> s \<noteq> []
      | VList xs \<Rightarrow> xs \<noteq> [])"

definition raised :: "error + 'a \<Rightarrow> werror + 'a" where
  "raised r = (case r of Inl e \<Rightarrow> Inl (Raised e) | Inr x \<Rightarrow> Inr x)"

text \<open>
  A sequence of writes: the bytes of all of them in order, or the first failure.
\<close>

fun emit :: "('a \<Rightarrow> werror + bytes) \<Rightarrow> 'a list \<Rightarrow> werror + bytes" where
  "emit f [] = Inr []"
| "emit f (x # xs) =
     (case f x of
        Inl e \<Rightarrow> Inl e
      | Inr ys \<Rightarrow> (case emit f xs of Inl e \<Rightarrow> Inl e | Inr zs \<Rightarrow> Inr (ys @ zs)))"

definition write_element :: "fmt_char \<Rightarrow> pyvalue \<Rightarrow> werror + bytes" where
  "write_element fmt v =
     (case fmt of
        Fmt_i \<Rightarrow> (case py_int v of Inl e \<Rightarrow> Inl e | Inr i \<Rightarrow> raised (write_i32 i))
      | Fmt_f \<Rightarrow> (case py_float v of Inl e \<Rightarrow> Inl e | Inr w \<Rightarrow> Inr (write_f32 w))
      | Fmt_I \<Rightarrow> (case py_int v of Inl e \<Rightarrow> Inl e | Inr i \<Rightarrow> Inr (write_u32 i)))"

definition write_extra_array :: "pyvalue \<Rightarrow> fmt_char \<Rightarrow> werror + bytes" where
  "write_extra_array values fmt =
     (if \<not> py_truth values then raised (write_u64 0)
      else (case values of
              VList xs \<Rightarrow>
                emit (\<lambda>w. w)
                  [raised (write_u64 1), Inr (write_u32 (int (length xs))),
                   emit (write_element fmt) xs]
            | VStr s \<Rightarrow> Inl ConversionNotModelled
            | _ \<Rightarrow> (case raised (write_u64 1) of Inl e \<Rightarrow> Inl e | Inr b \<Rightarrow> Inl TypeError)))"

definition write_string_element :: "pyvalue \<Rightarrow> werror + bytes" where
  "write_string_element v =
     (case py_str v of Inl e \<Rightarrow> Inl e | Inr s \<Rightarrow> Inr (write_delphi_string s))"

definition write_extra_string_array :: "pyvalue \<Rightarrow> werror + bytes" where
  "write_extra_string_array values =
     (if \<not> py_truth values then raised (write_u64 0)
      else (case values of
              VList xs \<Rightarrow>
                emit (\<lambda>w. w)
                  [raised (write_u64 1), Inr (write_u32 (int (length xs))),
                   emit write_string_element xs]
            | VStr s \<Rightarrow> Inl ConversionNotModelled
            | _ \<Rightarrow> (case raised (write_u64 1) of Inl e \<Rightarrow> Inl e | Inr b \<Rightarrow> Inl TypeError)))"

text \<open>
  The dispatch on the type tag in \<^verbatim>\<open>write_par\<close>; a tag outside 0..7 matches no
  branch and writes nothing.
\<close>

definition write_field_value :: "ParField \<Rightarrow> werror + bytes" where
  "write_field_value field =
     (let dt = dtype field; val = fvalue field
      in if dt = 0 then (case py_int val of Inl e \<Rightarrow> Inl e | Inr i \<Rightarrow> raised (write_i32 i))
         else if dt = 1 then (case py_float val of Inl e \<Rightarrow> Inl e | Inr w \<Rightarrow> Inr (write_f32 w))
         else if dt = 2 then (case py_int val of Inl e \<Rightarrow> Inl e | Inr i \<Rightarrow> Inr (write_u32 i))
         else if dt = 3 then write_string_element val
         else if dt = 4 then write_extra_array val Fmt_i
         else if dt = 5 then write_extra_array val Fmt_f
         else if dt = 6 then write_extra_array val Fmt_I
         else if dt = 7 then write_extra_string_array val
         else Inr [])"

definition write_entry :: "ParEntry \<Rightarrow> werror + bytes" where
  "write_entry entry =
     emit (\<lambda>w. w)
       [Inr (write_delphi_string (name entry)),
        raised (write_i8 (unknown_byte entry)),
        Inr (write_u16 (int (length (entry_fields entry)))),
        Inr (write_u16 (unknown_u16a entry)),
        Inr (write_u16 (unknown_u16b entry)),
        emit (\<lambda>field. Inr (write_u8 (dtype field))) (entry_fields entry),
        emit write_field_value (entry_fields entry)]"

definition write_list :: "ParList \<Rightarrow> werror + bytes" where
  "write_list pl =
     emit (\<lambda>w. w)
       [Inr (write_u32 (unknown1 pl)),
        Inr (write_u32 (unknown2 pl)),
        Inr (write_u32 (int (length (entries pl)))),
        emit write_entry (entries pl)]"

definition write_par :: "ParFile \<Rightarrow> werror + bytes" where
  "write_par par =
     (case emit (\<lambda>w. w)
             [Inr PAR_MAGIC,
              Inr (write_u32 (version par)),
              Inr (write_u32 (int (length (par_lists par)))),
              Inr (write_u32 0),
              emit write_list (par_lists par)] of
        Inl e \<Rightarrow> Inl e
      | Inr result \<Rightarrow>
          (case trailing_data par of
             None \<Rightarrow> Inr result
           | Some t \<Rightarrow> if t \<noteq> [] then Inr (result @ t) else Inr result))"

section \<open>Predicates used in the statements\<close>

text \<open>
  Entry \<open>i\<close> of a list is the last one that bears the name \<open>nm\<close>.
\<close>

definition is_last_named :: "ParEntry list \<Rightarrow> nat \<Rightarrow> pystr \<Rightarrow> bool" where
  "is_last_named es i nm \<longleftrightarrow>
     i < length es \<and> name (es ! i) = nm \<and> (\<forall>j. i < j \<and> j < length es \<longrightarrow> name (es ! j) \<noteq> nm)"


text \<open>
  The values on which Python's \<^verbatim>\<open>==\<close> holds between a value and an equal copy of
  it: no float NaN, also inside a list. A field is comparable when the tolerance
  test of \<^verbatim>\<open>_cmp_fields_equal\<close> can succeed on it: a float value is finite, any
  other value holds no NaN.
\<close>

fun no_nan :: "pyvalue \<Rightarrow> bool" where
  "no_nan (VFloat w) = (f32_float w \<noteq> NaN)"
| "no_nan (VList xs) = list_all no_nan xs"
| "no_nan v = True"

definition comparable_field :: "ParField \<Rightarrow> bool" where
  "comparable_field f =
     (case fvalue f of
        VFloat w \<Rightarrow> (case f32_float w of Finite q \<Rightarrow> True | _ \<Rightarrow> False)
      | v \<Rightarrow> no_nan v)"

definition comparable_model :: "ParFile \<Rightarrow> bool" where
  "comparable_model m =
     list_all (\<lambda>pl. list_all (\<lambda>e. list_all comparable_field (entry_fields e)) (entries pl))
       (par_lists m)"

text \<open>No label table: \<^verbatim>\<open>FieldLabels.get\<close> returns \<^verbatim>\<open>None\<close> for every key.\<close>

definition no_labels :: field_labels where
  "no_labels fc fi = None"

text \<open>A diff record without its displayed baseline value.\<close>

definition drop_original :: "diff \<Rightarrow> diff" where
  "drop_original d = d\<lparr>original_val := Dash\<rparr>"

text \<open>
  What a \<open>Changed\<close> record says about the two entries it was computed from: at its
  field index the two entries do not both hold a field that \<^verbatim>\<open>_cmp_fields_equal\<close>
  accepts, and the record shows the source entry's and the input entry's value.
  \<open>same\<close> tells which list elements of the two fields are one object.
\<close>

definition compared :: "(nat \<Rightarrow> bool) \<Rightarrow> ParEntry \<Rightarrow> ParEntry \<Rightarrow> diff \<Rightarrow> bool" where
  "compared same se ie d \<longleftrightarrow>
     (let fi = nat (field_idx d);
          sf = nth_opt (entry_fields se) fi;
          inf_f = nth_opt (entry_fields ie) fi
      in 0 \<le> field_idx d \<and>
         fi < max (length (entry_fields se)) (length (entry_fields ie)) \<and>
         \<not> (case (sf, inf_f) of (Some a, Some b) \<Rightarrow> cmp_fields_equal same a b | _ \<Rightarrow> False) \<and>
         cmp_field_value_str sf = Inr (source_val d) \<and>
         cmp_field_value_str inf_f = Inr (input_val d))"

text \<open>
  A record of list index \<open>li\<close>, where the source list has the entries \<open>ses\<close> and the
  input list the entries \<open>ies\<close>, is located at the last entries of its name: every
  entry coordinate it carries is the index of the last entry of that name, a
  \<open>Changed\<close> record compares those two entries, and a one-sided record bears a name
  the other list does not have.
\<close>

definition located_last :: "sharing \<Rightarrow> nat \<Rightarrow> ParEntry list \<Rightarrow> ParEntry list \<Rightarrow> diff \<Rightarrow> bool" where
  "located_last sh li ses ies d \<longleftrightarrow>
     list_idx d = int li \<and>
     (case diff_type d of
        Changed \<Rightarrow>
          src_li d = int li \<and> inp_li d = int li \<and> 0 \<le> src_ei d \<and> 0 \<le> inp_ei d \<and>
          is_last_named ses (nat (src_ei d)) (entry_name d) \<and>
          is_last_named ies (nat (inp_ei d)) (entry_name d) \<and>
          compared (sh li (nat (src_ei d)) (nat (field_idx d)))
            (ses ! nat (src_ei d)) (ies ! nat (inp_ei d)) d
      | InputOnly \<Rightarrow>
          src_li d = - 1 \<and> src_ei d = - 1 \<and> inp_li d = int li \<and> 0 \<le> inp_ei d \<and>
          field_idx d = - 1 \<and>
          is_last_named ies (nat (inp_ei d)) (entry_name d) \<and>
          entry_name d \<notin> name ` set ses
      | SourceOnly \<Rightarrow>
          inp_li d = - 1 \<and> inp_ei d = - 1 \<and> src_li d = int li \<and> 0 \<le> src_ei d \<and>
          field_idx d = - 1 \<and>
          is_last_named ses (nat (src_ei d)) (entry_name d) \<and>
          entry_name d \<notin> name ` set ies)"



text \<open>
  The values that fit the wire format, so that \<^verbatim>\<open>write_par\<close> writes them without
  masking, replacing or raising and \<^verbatim>\<open>read_par\<close> accepts what was written: integers
  in the range of their packed format, floats whose NaN is quiet, strings of at most
  1000000 ASCII characters, counts that fit their length prefix.
\<close>

definition in_i8 :: "int \<Rightarrow> bool" where
  "in_i8 v \<longleftrightarrow> - 128 \<le> v \<and> v < 128"

definition in_u16 :: "int \<Rightarrow> bool" where
  "in_u16 v \<longleftrightarrow> 0 \<le> v \<and> v < 65536"

definition in_i32 :: "int \<Rightarrow> bool" where
  "in_i32 v \<longleftrightarrow> - 2147483648 \<le> v \<and> v < 2147483648"

definition in_u32 :: "int \<Rightarrow> bool" where
  "in_u32 v \<longleftrightarrow> 0 \<le> v \<and> v < 4294967296"

definition wire_string :: "pystr \<Rightarrow> bool" where
  "wire_string s \<longleftrightarrow> list_all (\<lambda>c. c < 128) s \<and> length s \<le> 1000000"

fun wire_element :: "fmt_char \<Rightarrow> pyvalue \<Rightarrow> bool" where
  "wire_element Fmt_i (VInt v) = in_i32 v"
| "wire_element Fmt_f (VFloat w) = (quiet_nan w = w)"
| "wire_element Fmt_I (VInt v) = in_u32 v"
| "wire_element fmt v = False"

fun wire_string_element :: "pyvalue \<Rightarrow> bool" where
  "wire_string_element (VStr s) = wire_string s"
| "wire_string_element v = False"

definition wire_field :: "ParField \<Rightarrow> bool" where
  "wire_field f =
     (let dt = dtype f; v = fvalue f
      in if dt = 0 then wire_element Fmt_i v
         else if dt = 1 then wire_element Fmt_f v
         else if dt = 2 then wire_element Fmt_I v
         else if dt = 3 then wire_string_element v
         else (case v of
                 VList xs \<Rightarrow>
                   length xs < 4294967296 \<and>
                   (if dt = 4 then list_all (wire_element Fmt_i) xs
                    else if dt = 5 then list_all (wire_element Fmt_f) xs
                    else if dt = 6 then list_all (wire_element Fmt_I) xs
                    else if dt = 7 then list_all wire_string_element xs
                    else False)
               | _ \<Rightarrow> False))"

definition wire_entry :: "ParEntry \<Rightarrow> bool" where
  "wire_entry e \<longleftrightarrow>
     wire_string (name e) \<and> in_i8 (unknown_byte e) \<and>
     in_u16 (unknown_u16a e) \<and> in_u16 (unknown_u16b e) \<and>
     length (entry_fields e) < 65536 \<and> list_all wire_field (entry_fields e)"

definition wire_list :: "ParList \<Rightarrow> bool" where
  "wire_list pl \<longleftrightarrow>
     in_u32 (unknown1 pl) \<and> in_u32 (unknown2 pl) \<and>
     length (entries pl) < 4294967296 \<and> list_all wire_entry (entries pl)"

definition wire_file :: "ParFile \<Rightarrow> bool" where
  "wire_file m \<longleftrightarrow>
     in_u32 (version m) \<and> length (par_lists m) < 4294967296 \<and>
     list_all wire_list (par_lists m) \<and> trailing_data m \<noteq> Some []"

text \<open>
  What \<^verbatim>\<open>read_par\<close> returns besides the decoded content: the fields its caller fills
  in later are at the constructor's defaults.
\<close>

definition as_decoded :: "ParFile \<Rightarrow> ParFile" where
  "as_decoded m = m\<lparr>filepath := [], wrapper_header := None, was_compressed := False\<rparr>"

text \<open>A string element after one pass through the encoder and the decoder.\<close>

fun reencoded :: "pyvalue \<Rightarrow> pyvalue" where
  "reencoded (VStr s) = VStr (decode_ascii (encode_ascii s))"
| "reencoded v = v"

section \<open>Predicates for repeated merges\<close>

text \<open>
  A record that the merge loop can apply to \<open>src\<close>: the coordinates of a \<open>Changed\<close>
  record are not negative and resolve in \<open>src\<close> and in \<open>inp\<close>, both at the same list
  index, and its input entry is the last entry of the input list that bears the name
  of its source entry; the coordinates of an \<open>InputOnly\<close> record resolve in \<open>inp\<close>.
\<close>

definition mergeable :: "ParFile \<Rightarrow> ParFile \<Rightarrow> diff \<Rightarrow> bool" where
  "mergeable inp src d \<longleftrightarrow>
     (case diff_type d of
        Changed \<Rightarrow>
          0 \<le> field_idx d \<and> 0 \<le> src_li d \<and> 0 \<le> src_ei d \<and> 0 \<le> inp_ei d \<and>
          inp_li d = src_li d \<and>
          nat (src_li d) < length (par_lists src) \<and>
          nat (src_li d) < length (par_lists inp) \<and>
          nat (src_ei d) < length (entries (par_lists src ! nat (src_li d))) \<and>
          is_last_named (entries (par_lists inp ! nat (src_li d))) (nat (inp_ei d))
            (name (entries (par_lists src ! nat (src_li d)) ! nat (src_ei d)))
      | InputOnly \<Rightarrow>
          0 \<le> inp_li d \<and> 0 \<le> inp_ei d \<and> nat (inp_li d) < length (par_lists inp) \<and>
          nat (inp_ei d) < length (entries (par_lists inp ! nat (inp_li d)))
      | SourceOnly \<Rightarrow> True)"

text \<open>
  A record whose effect \<open>src\<close> already shows: the target field of a \<open>Changed\<close> record
  holds the input field, where the input entry has a field at that index; the name of
  the input entry of an \<open>InputOnly\<close> record is borne by an entry of the target list.
\<close>

definition settled :: "ParFile \<Rightarrow> ParFile \<Rightarrow> diff \<Rightarrow> bool" where
  "settled inp src d \<longleftrightarrow>
     (case diff_type d of
        Changed \<Rightarrow>
          (let ie = entries (par_lists inp ! nat (inp_li d)) ! nat (inp_ei d);
               se = entries (par_lists src ! nat (src_li d)) ! nat (src_ei d);
               fi = nat (field_idx d)
           in fi < length (entry_fields ie) \<longrightarrow>
              fi < length (entry_fields se) \<and> entry_fields se ! fi = entry_fields ie ! fi)
      | InputOnly \<Rightarrow>
          nat (inp_li d) < length (par_lists src) \<and>
          name (entries (par_lists inp ! nat (inp_li d)) ! nat (inp_ei d))
            \<in> name ` set (entries (par_lists src ! nat (inp_li d)))
      | SourceOnly \<Rightarrow> True)"

text \<open>What a record adds to \<^verbatim>\<open>changed_count\<close> when its coordinates resolve.\<close>

definition counted :: "ParFile \<Rightarrow> diff \<Rightarrow> nat" where
  "counted inp d =
     (if diff_type d = Changed \<and>
         nat (field_idx d) <
           length (entry_fields (entries (par_lists inp ! nat (inp_li d)) ! nat (inp_ei d)))
      then 1 else 0)"

text \<open>
  \<open>src'\<close> has at least the lists and entries of \<open>src\<close>, under the same names
  (\<open>extends\<close>) or unchanged (\<open>keeps\<close>).
\<close>

definition extends :: "ParFile \<Rightarrow> ParFile \<Rightarrow> bool" where
  "extends src src' \<longleftrightarrow>
     length (par_lists src) \<le> length (par_lists src') \<and>
     (\<forall>li < length (par_lists src).
        length (entries (par_lists src ! li)) \<le> length (entries (par_lists src' ! li)) \<and>
        (\<forall>ei < length (entries (par_lists src ! li)).
           name (entries (par_lists src' ! li) ! ei) = name (entries (par_lists src ! li) ! ei)))"

definition keeps :: "ParFile \<Rightarrow> ParFile \<Rightarrow> bool" where
  "keeps src src' \<longleftrightarrow>
     length (par_lists src) \<le> length (par_lists src') \<and>
     (\<forall>li < length (par_lists src).
        length (entries (par_lists src ! li)) \<le> length (entries (par_lists src' ! li)) \<and>
        (\<forall>ei < length (entries (par_lists src ! li)).
           entries (par_lists src' ! li) ! ei = entries (par_lists src ! li) ! ei))"

section \<open>Buffers that are written back byte for byte\<close>

text \<open>
  \<^verbatim>\<open>read_par\<close> accepts four things that \<^verbatim>\<open>write_par\<close> does not write back: a reserved
  header word that is not zero, a string byte above 127, a float32 that is a
  signalling NaN, and an array presence marker that is neither 0 nor 1, or is 1
  before a count of zero. The predicates below say of the bytes at the head of a
  buffer, read as the reader reads them, that they hold none of these; where the
  reader fails they say nothing.
\<close>

definition canonical_f32 :: "bytes \<Rightarrow> bool" where
  "canonical_f32 bs \<longleftrightarrow>
     quiet_nan (of_nat (le_nat (take 4 bs))) = (of_nat (le_nat (take 4 bs)) :: f32)"

definition canonical_string :: "bytes \<Rightarrow> bool" where
  "canonical_string bs \<longleftrightarrow>
     (case read_u32 bs of
        Inl e \<Rightarrow> True
      | Inr (len, rest) \<Rightarrow> list_all (\<lambda>b. unat b < 128) (take (nat len) rest))"

text \<open>The \<open>n\<close> items a reader reads one after the other all satisfy \<open>ok\<close>.\<close>

fun each_item ::
  "(bytes \<Rightarrow> bool) \<Rightarrow> (bytes \<Rightarrow> error + ('a \<times> bytes)) \<Rightarrow> nat \<Rightarrow> bytes \<Rightarrow> bool" where
  "each_item ok rd 0 bs = True"
| "each_item ok rd (Suc n) bs =
     (ok bs \<and> (case rd bs of Inl e \<Rightarrow> True | Inr (x, rest) \<Rightarrow> each_item ok rd n rest))"

definition canonical_array ::
  "(bytes \<Rightarrow> bool) \<Rightarrow> (bytes \<Rightarrow> error + (pyvalue \<times> bytes)) \<Rightarrow> bytes \<Rightarrow> bool" where
  "canonical_array ok rd bs \<longleftrightarrow>
     (case read_u64 bs of
        Inl e \<Rightarrow> True
      | Inr (check, r) \<Rightarrow>
          check = 0 \<or>
          (check = 1 \<and>
           (case read_u32 r of
              Inl e \<Rightarrow> True
            | Inr (n, r') \<Rightarrow> n \<noteq> 0 \<and> each_item ok rd (nat n) r')))"

text \<open>The element reader and writer of an array type tag, and its canonical elements.\<close>

definition element_reader :: "int \<Rightarrow> bytes \<Rightarrow> error + (pyvalue \<times> bytes)" where
  "element_reader dt =
     (if dt = 4 then read_element Fmt_i
      else if dt = 5 then read_element Fmt_f
      else if dt = 6 then read_element Fmt_I
      else read_string_element)"

definition element_writer :: "int \<Rightarrow> pyvalue \<Rightarrow> werror + bytes" where
  "element_writer dt =
     (if dt = 4 then write_element Fmt_i
      else if dt = 5 then write_element Fmt_f
      else if dt = 6 then write_element Fmt_I
      else write_string_element)"

definition canonical_element :: "int \<Rightarrow> bytes \<Rightarrow> bool" where
  "canonical_element dt bs \<longleftrightarrow>
     (if dt = 5 then canonical_f32 bs else if dt = 7 then canonical_string bs else True)"

definition canonical_field :: "int \<Rightarrow> bytes \<Rightarrow> bool" where
  "canonical_field dt bs \<longleftrightarrow>
     (if dt = 1 then canonical_f32 bs
      else if dt = 3 then canonical_string bs
      else if dt = 4 \<or> dt = 5 \<or> dt = 6 \<or> dt = 7
        then canonical_array (canonical_element dt) (element_reader dt) bs
      else True)"

fun canonical_fields :: "int list \<Rightarrow> bytes \<Rightarrow> bool" where
  "canonical_fields [] bs = True"
| "canonical_fields (dt # dts) bs =
     (canonical_field dt bs \<and>
      (case read_field_value dt bs of
         Inl e \<Rightarrow> True
       | Inr (v, rest) \<Rightarrow> canonical_fields dts rest))"

definition canonical_entry :: "bytes \<Rightarrow> bool" where
  "canonical_entry bs \<longleftrightarrow>
     canonical_string bs \<and>
     (case read_delphi_string bs of Inl e \<Rightarrow> True | Inr (nm, r1) \<Rightarrow>
      case read_i8 r1 of Inl e \<Rightarrow> True | Inr (ub, r2) \<Rightarrow>
      case read_u16 r2 of Inl e \<Rightarrow> True | Inr (data_entry_count, r3) \<Rightarrow>
      case read_u16 r3 of Inl e \<Rightarrow> True | Inr (ua, r4) \<Rightarrow>
      case read_u16 r4 of Inl e \<Rightarrow> True | Inr (ub16, r5) \<Rightarrow>
      case read_n read_u8 (nat data_entry_count) r5 of Inl e \<Rightarrow> True | Inr (type_list, r6) \<Rightarrow>
        canonical_fields type_list r6)"

definition canonical_list :: "bytes \<Rightarrow> bool" where
  "canonical_list bs \<longleftrightarrow>
     (case read_u32 bs of Inl e \<Rightarrow> True | Inr (u1, r1) \<Rightarrow>
      case read_u32 r1 of Inl e \<Rightarrow> True | Inr (u2, r2) \<Rightarrow>
      case read_u32 r2 of Inl e \<Rightarrow> True | Inr (entry_count, r3) \<Rightarrow>
        each_item canonical_entry read_entry (nat entry_count) r3)"

definition canonical_file :: "bytes \<Rightarrow> bool" where
  "canonical_file data \<longleftrightarrow>
     (case read_bytes 4 data of Inl e \<Rightarrow> True | Inr (magic, r1) \<Rightarrow>
      case read_u32 r1 of Inl e \<Rightarrow> True | Inr (ver, r2) \<Rightarrow>
      case read_u32 r2 of Inl e \<Rightarrow> True | Inr (list_count, r3) \<Rightarrow>
      case read_u32 r3 of Inl e \<Rightarrow> True | Inr (pad, r4) \<Rightarrow>
        pad = 0 \<and> each_item canonical_list read_list (nat list_count) r4)"

text \<open>
  A byte region holds the elements \<open>xs\<close> in order: it is cut into one chunk for each
  element, and the element reader reads the \<open>k\<close>-th chunk, whole, as the \<open>k\<close>-th
  element. A writer writes \<open>xs\<close> in order into a region: the region is the chunks the
  element writer returns for each element, one after the other.
\<close>

definition decodes_in_order ::
  "(bytes \<Rightarrow> error + (pyvalue \<times> bytes)) \<Rightarrow> bytes \<Rightarrow> pyvalue list \<Rightarrow> bool" where
  "decodes_in_order rd region xs \<longleftrightarrow>
     (\<exists>chunks. region = concat chunks \<and> list_all2 (\<lambda>c x. rd c = Inr (x, [])) chunks xs)"

definition encodes_in_order ::
  "(pyvalue \<Rightarrow> werror + bytes) \<Rightarrow> pyvalue list \<Rightarrow> bytes \<Rightarrow> bool" where
  "encodes_in_order wr xs region \<longleftrightarrow>
     (\<exists>chunks. region = concat chunks \<and> list_all2 (\<lambda>x c. wr x = Inr c) xs chunks)"

section \<open>Concrete inputs\<close>

text \<open>
  Small models for the evaluations below: an entry with the opaque tags at zero, a
  file of one list, and a few fields. \<open>0x7F800000\<close> is the binary32 pattern of
  \<open>+inf\<close> (the bytes \<open>00 00 80 7F\<close> in a file).
\<close>

definition ex_entry :: "pystr \<Rightarrow> ParField list \<Rightarrow> ParEntry" where
  "ex_entry nm fs =
     \<lparr>name = nm, unknown_byte = 0, unknown_u16a = 0, unknown_u16b = 0, entry_fields = fs\<rparr>"

definition ex_file :: "ParEntry list \<Rightarrow> ParFile" where
  "ex_file es = new_ParFile\<lparr>par_lists := [\<lparr>unknown1 = 0, unknown2 = 0, entries = es\<rparr>]\<rparr>"

definition int_field :: "int \<Rightarrow> ParField" where
  "int_field v = \<lparr>dtype = 0, fvalue = VInt v\<rparr>"

definition inf_field :: ParField where
  "inf_field = \<lparr>dtype = 1, fvalue = VFloat 0x7F800000\<rparr>"

definition one_field :: ParField where
  "one_field = \<lparr>dtype = 1, fvalue = VFloat 0x3F800000\<rparr>"

text \<open>The names \<^verbatim>\<open>"A"\<close> and \<^verbatim>\<open>"B"\<close>.\<close>

definition name_A :: pystr where
  "name_A = [65]"

definition name_B :: pystr where
  "name_B = [66]"

definition inf_model :: ParFile where
  "inf_model = ex_file [ex_entry name_A [inf_field]]"

definition nan_array_model :: ParFile where
  "nan_array_model =
     ex_file [ex_entry name_A [\<lparr>dtype = 5, fvalue = VList [VFloat 0x7FC00000]\<rparr>]]"

definition finite_model :: ParFile where
  "finite_model = ex_file [ex_entry name_A [int_field 10, one_field]]"

definition src_10 :: ParFile where
  "src_10 = ex_file [ex_entry name_A [int_field 10]]"

definition inp_12 :: ParFile where
  "inp_12 = ex_file [ex_entry name_A [int_field 12]]"

definition inf_baseline :: ParFile where
  "inf_baseline = ex_file [ex_entry name_A [inf_field]]"

text \<open>
  Two models whose only list holds two entries named \<^verbatim>\<open>"A"\<close>, and the one record the
  compare produces for them.
\<close>

definition dup_src :: ParFile where
  "dup_src = ex_file [ex_entry name_A [int_field 1], ex_entry name_A [int_field 2]]"

definition dup_inp :: ParFile where
  "dup_inp = ex_file [ex_entry name_A [int_field 3], ex_entry name_A [int_field 5]]"

definition dup_record :: diff where
  "dup_record =
     \<lparr>diff_type = Changed, list_idx = 0, entry_name = name_A, field_idx = 0,
      field_label = [], source_val = StrOf (VInt 2), input_val = StrOf (VInt 5),
      original_val = Dash, src_li = 0, src_ei = 1, inp_li = 0, inp_ei = 1\<rparr>"

text \<open>
  A \<open>SourceOnly\<close> record, a checkbox dict with every box checked, and a \<open>Changed\<close>
  record whose field index the input entry does not have.
\<close>

definition source_only_record :: diff where
  "source_only_record =
     \<lparr>diff_type = SourceOnly, list_idx = 0, entry_name = name_A, field_idx = - 1,
      field_label = [], source_val = NumFields 1, input_val = Dash,
      original_val = Dash, src_li = 0, src_ei = 0, inp_li = - 1, inp_ei = - 1\<rparr>"

definition all_checked :: checks where
  "all_checked i = Some True"



definition changed_record :: diff where
  "changed_record =
     \<lparr>diff_type = Changed, list_idx = 0, entry_name = name_A, field_idx = 0,
      field_label = [], source_val = StrOf (VInt 10), input_val = StrOf (VInt 12),
      original_val = Dash, src_li = 0, src_ei = 0, inp_li = 0, inp_ei = 0\<rparr>"

text \<open>
  The bytes of an array field that is present but empty (presence marker 1, count
  0), and a 16-byte container whose reserved header word is 1.
\<close>

definition present_empty_array :: bytes where
  "present_empty_array = [1, 0, 0, 0, 0, 0, 0, 0, 0, 0, 0, 0]"

definition nonzero_pad_buffer :: bytes where
  "nonzero_pad_buffer = [0x50, 0x41, 0x52, 0x00, 0x00, 0x06, 0, 0, 0, 0, 0, 0, 1, 0, 0, 0]"

text \<open>
  A container with one list of one entry, named \<^verbatim>\<open>"Hi"\<close>, its byte at \<open>-1\<close>, that holds
  a float 1.0, the string \<^verbatim>\<open>"A"\<close>, a float array of the one element 1.0 and an absent
  string array, followed by two trailing bytes; and the model it decodes to.
\<close>

definition rich_bytes :: bytes where
  "rich_bytes =
     [0x50, 0x41, 0x52, 0x00, 0x00, 0x06, 0, 0, 1, 0, 0, 0, 0, 0, 0, 0,
      0, 0, 0, 0, 0, 0, 0, 0, 1, 0, 0, 0,
      2, 0, 0, 0, 0x48, 0x69, 0xFF, 4, 0, 0, 0, 0, 0,
      1, 3, 5, 7,
      0, 0, 0x80, 0x3F,
      1, 0, 0, 0, 0x41,
      1, 0, 0, 0, 0, 0, 0, 0, 1, 0, 0, 0, 0, 0, 0x80, 0x3F,
      0, 0, 0, 0, 0, 0, 0, 0,
      0xAB, 0xCD]"

definition rich_model :: ParFile where
  "rich_model = new_ParFile\<lparr>par_lists :=
     [\<lparr>unknown1 = 0, unknown2 = 0, entries =
        [\<lparr>name = [0x48, 0x69], unknown_byte = - 1, unknown_u16a = 0, unknown_u16b = 0,
          entry_fields =
            [\<lparr>dtype = 1, fvalue = VFloat 0x3F800000\<rparr>,
             \<lparr>dtype = 3, fvalue = VStr [0x41]\<rparr>,
             \<lparr>dtype = 5, fvalue = VList [VFloat 0x3F800000]\<rparr>,
             \<lparr>dtype = 7, fvalue = VList []\<rparr>]\<rparr>]\<rparr>],
     trailing_data := Some [0xAB, 0xCD]\<rparr>"

definition two_int_array :: bytes where
  "two_int_array = [1, 0, 0, 0, 0, 0, 0, 0, 2, 0, 0, 0, 7, 0, 0, 0, 0xFF, 0xFF, 0xFF, 0xFF]"

text \<open>
  An input with the entries \<^verbatim>\<open>"A"\<close> and \<^verbatim>\<open>"B"\<close>, the \<open>InputOnly\<close> record the compare
  computes for \<^verbatim>\<open>"B"\<close> against \<open>src_10\<close>, and the source after both records are merged.
\<close>

definition inp_12_7 :: ParFile where
  "inp_12_7 = ex_file [ex_entry name_A [int_field 12], ex_entry name_B [int_field 7]]"

definition added_record :: diff where
  "added_record =
     \<lparr>diff_type = InputOnly, list_idx = 0, entry_name = name_B, field_idx = - 1,
      field_label = [], source_val = Dash, input_val = NumFields 1,
      original_val = Dash, src_li = - 1, src_ei = - 1, inp_li = 0, inp_ei = 1\<rparr>"

definition merged_12_7 :: ParFile where
  "merged_12_7 = ex_file [ex_entry name_A [int_field 12], ex_entry name_B [int_field 7]]"

text \<open>
  A source with two entries named \<^verbatim>\<open>"A"\<close>, the \<open>Changed\<close> record the compare computes
  from it and \<open>inp_12_7\<close>, and the results of merging that record and the
  \<open>InputOnly\<close> record into \<open>src_10\<close> once and twice.
\<close>

definition stale_src :: ParFile where
  "stale_src = ex_file [ex_entry name_A [int_field 12], ex_entry name_A [int_field 1]]"

definition stale_record :: diff where
  "stale_record =
     \<lparr>diff_type = Changed, list_idx = 0, entry_name = name_A, field_idx = 0,
      field_label = [], source_val = StrOf (VInt 1), input_val = StrOf (VInt 12),
      original_val = Dash, src_li = 0, src_ei = 1, inp_li = 0, inp_ei = 0\<rparr>"

definition merged_once :: ParFile where
  "merged_once = ex_file [ex_entry name_A [int_field 10], ex_entry name_B [int_field 7]]"

definition merged_twice :: ParFile where
  "merged_twice = ex_file [ex_entry name_A [int_field 10], ex_entry name_B [int_field 12]]"

lemma stored_unbody_body: "stored_unbody (stored_body x @ rest) = Some (x, rest)"
  by (induction x) simp_all

lemma stored_stream_laws: "zlib_stream_laws stored_compress stored_decompress"
  by (simp add: zlib_stream_laws_def stored_compress_def stored_decompress_def
      stored_unbody_body)

lemma zc_nonempty:
  assumes "zlib_stream_laws zc zd"
  shows "zc x \<noteq> []"
proof -
  from assms have "4 \<le> length (zc x)"
    by (simp add: zlib_stream_laws_def)
  then show ?thesis by auto
qed

text \<open>
  C4. For every container that begins with the PAR magic and every header,
  decompressing what \<^verbatim>\<open>compress_par_file\<close> built from them returns the container, the
  header and \<^verbatim>\<open>True\<close>. Nothing is said about the compressed bytes themselves: the
  compressor is any function that obeys the stream laws of zlib.
\<close>

theorem envelope_symmetry:
  assumes laws: "zlib_stream_laws zc zd"
    and magic: "take 4 container = PAR_MAGIC"
  shows "decompress_par_file zd (compress_par_file zc container (Some header))
         = Inr (container, Some header, True)"
proof -
  let ?raw = "zc header @ zc container"
  from laws have len: "4 \<le> length (zc header)" and first: "zc header ! 0 = 0x78"
    by (simp_all add: zlib_stream_laws_def)
  from len have raw_len: "\<not> length ?raw < 4" by simp
  have "zc header \<noteq> []" using laws by (rule zc_nonempty)
  with first have raw_first: "?raw ! 0 = 0x78"
    by (simp add: nth_append)
  from laws have s1: "zd ?raw = Some (header, zc container)"
    by (simp add: zlib_stream_laws_def)
  from laws have "zd (zc container @ []) = Some (container, [])"
    unfolding zlib_stream_laws_def by blast
  then have s2: "zd (zc container) = Some (container, [])" by simp
  have rest: "zc container \<noteq> []" using laws by (rule zc_nonempty)
  show ?thesis
    unfolding compress_par_file_def decompress_par_file_def
    using raw_len raw_first s1 s2 rest magic by simp
qed

theorem envelope_symmetry_witness:
  "decompress_par_file stored_decompress
     (compress_par_file stored_compress [0x50, 0x41, 0x52, 0x00, 0x07] (Some [0x2A]))
   = Inr ([0x50, 0x41, 0x52, 0x00, 0x07], Some [0x2A], True)"
  using envelope_symmetry [OF stored_stream_laws, of "[0x50, 0x41, 0x52, 0x00, 0x07]" "[0x2A]"]
  by (simp add: PAR_MAGIC_def)

section \<open>Properties of the compare dictionaries\<close>

lemma by_name_snoc:
  "by_name (es @ [x]) = AList.update (name x) (length es, x) (by_name es)"
  by (simp add: by_name_def enumerate_append_eq)

lemma by_name_Nil: "by_name [] = []"
  by (simp add: by_name_def)

lemma map_of_by_name_snoc:
  "map_of (by_name (es @ [x])) k =
     (if k = name x then Some (length es, x) else map_of (by_name es) k)"
  by (simp add: by_name_snoc update_conv')

lemma is_last_named_snoc_eq:
  "is_last_named (es @ [x]) i (name x) \<longleftrightarrow> i = length es"
proof
  assume h: "is_last_named (es @ [x]) i (name x)"
  show "i = length es"
  proof (rule ccontr)
    assume "i \<noteq> length es"
    with h have lt: "i < length es" by (simp add: is_last_named_def)
    from h have later: "i < j \<Longrightarrow> j < length (es @ [x]) \<Longrightarrow> name ((es @ [x]) ! j) \<noteq> name x" for j
      by (simp add: is_last_named_def)
    from later [of "length es"] lt show False by simp
  qed
next
  assume "i = length es"
  then show "is_last_named (es @ [x]) i (name x)"
    by (auto simp: is_last_named_def)
qed

lemma is_last_named_snoc_neq:
  assumes "k \<noteq> name x"
  shows "is_last_named (es @ [x]) i k \<longleftrightarrow> is_last_named es i k"
proof
  assume h: "is_last_named (es @ [x]) i k"
  have lt: "i < length es"
  proof (rule ccontr)
    assume "\<not> i < length es"
    with h have "i = length es" by (simp add: is_last_named_def)
    with h assms show False by (simp add: is_last_named_def)
  qed
  have later: "name (es ! j) \<noteq> k" if "i < j" "j < length es" for j
  proof -
    from h have "i < j' \<Longrightarrow> j' < length (es @ [x]) \<Longrightarrow> name ((es @ [x]) ! j') \<noteq> k" for j'
      by (simp add: is_last_named_def)
    from this [of j] that have "name ((es @ [x]) ! j) \<noteq> k" by simp
    with that show ?thesis by (simp add: nth_append)
  qed
  from h lt have "name (es ! i) = k"
    by (simp add: is_last_named_def nth_append)
  with lt later show "is_last_named es i k"
    by (simp add: is_last_named_def)
next
  assume h: "is_last_named es i k"
  then have lt: "i < length es" by (simp add: is_last_named_def)
  have "name ((es @ [x]) ! j) \<noteq> k" if "i < j" "j < length (es @ [x])" for j
  proof (cases "j < length es")
    case True
    with h that show ?thesis by (simp add: is_last_named_def nth_append)
  next
    case False
    with that have "j = length es" by simp
    with assms show ?thesis by simp
  qed
  moreover from h lt have "name ((es @ [x]) ! i) = k"
    by (simp add: is_last_named_def nth_append)
  ultimately show "is_last_named (es @ [x]) i k"
    using lt unfolding is_last_named_def by simp
qed

lemma map_of_by_name_Some:
  "map_of (by_name es) k = Some (i, e) \<longleftrightarrow> is_last_named es i k \<and> e = es ! i"
proof (induction es rule: rev_induct)
  case Nil
  show ?case by (simp add: by_name_Nil is_last_named_def)
next
  case (snoc x es)
  show ?case
  proof (cases "k = name x")
    case True
    have "(es @ [x]) ! length es = x" by simp
    with True show ?thesis
      by (auto simp: map_of_by_name_snoc is_last_named_snoc_eq)
  next
    case False
    have lt: "is_last_named es i k \<Longrightarrow> (es @ [x]) ! i = es ! i"
      by (simp add: is_last_named_def nth_append)
    have "map_of (by_name (es @ [x])) k = map_of (by_name es) k"
      using False by (simp add: map_of_by_name_snoc)
    moreover have "is_last_named (es @ [x]) i k \<longleftrightarrow> is_last_named es i k"
      using False by (rule is_last_named_snoc_neq)
    ultimately show ?thesis
      using snoc lt by metis
  qed
qed

lemma map_of_by_name_None:
  "map_of (by_name es) k = None \<longleftrightarrow> k \<notin> name ` set es"
  by (induction es rule: rev_induct) (auto simp: by_name_Nil map_of_by_name_snoc)

lemma keys_by_name: "set (map fst (by_name es)) = name ` set es"
proof -
  have "k \<in> fst ` set (by_name es) \<longleftrightarrow> k \<in> name ` set es" for k
    using map_of_by_name_None [of es k] by (simp add: map_of_eq_None_iff)
  then show ?thesis by auto
qed

section \<open>Properties of the record collector and of field equality\<close>

lemma collect_all_Nil:
  "(\<And>x. x \<in> set xs \<Longrightarrow> f x = Inr []) \<Longrightarrow> collect f xs = Inr []"
  by (induction xs) simp_all

lemma collect_Inr_elem:
  "collect f xs = Inr ys \<Longrightarrow> d \<in> set ys \<Longrightarrow> \<exists>x zs. x \<in> set xs \<and> f x = Inr zs \<and> d \<in> set zs"
proof (induction xs arbitrary: ys)
  case Nil
  then show ?case by simp
next
  case (Cons a xs)
  from Cons.prems(1) obtain us vs where
    a: "f a = Inr us" and r: "collect f xs = Inr vs" and ys: "ys = us @ vs"
    by (auto split: sum.splits)
  from Cons.prems(2) ys have "d \<in> set us \<or> d \<in> set vs" by simp
  then show ?case
  proof
    assume "d \<in> set us"
    with a show ?thesis by auto
  next
    assume "d \<in> set vs"
    from Cons.IH [OF r this] show ?thesis by auto
  qed
qed

lemma collect_Inr_each:
  "collect f xs = Inr ys \<Longrightarrow> x \<in> set xs \<Longrightarrow> \<exists>zs. f x = Inr zs \<and> set zs \<subseteq> set ys"
proof (induction xs arbitrary: ys)
  case Nil
  then show ?case by simp
next
  case (Cons a xs)
  from Cons.prems(1) obtain us vs where
    a: "f a = Inr us" and r: "collect f xs = Inr vs" and ys: "ys = us @ vs"
    by (auto split: sum.splits)
  from Cons.prems(2) have "x = a \<or> x \<in> set xs" by simp
  then show ?case
  proof
    assume "x = a"
    with a ys show ?thesis by auto
  next
    assume "x \<in> set xs"
    from Cons.IH [OF r this] ys show ?thesis by auto
  qed
qed

lemma collect_total:
  "(\<And>x. x \<in> set xs \<Longrightarrow> \<exists>zs. f x = Inr zs) \<Longrightarrow> \<exists>ys. collect f xs = Inr ys"
proof (induction xs)
  case Nil
  show ?case by simp
next
  case (Cons a xs)
  from Cons.prems [of a] obtain us where a: "f a = Inr us" by auto
  from Cons.IH Cons.prems obtain vs where "collect f xs = Inr vs" by auto
  with a show ?case by simp
qed

lemma collect_map_eq:
  assumes "\<And>x a b. x \<in> set xs \<Longrightarrow> f x = Inr a \<Longrightarrow> g x = Inr b \<Longrightarrow> map h a = map h b"
    and "collect f xs = Inr ys" and "collect g xs = Inr zs"
  shows "map h ys = map h zs"
  using assms
proof (induction xs arbitrary: ys zs)
  case Nil
  then show ?case by simp
next
  case (Cons x xs)
  from Cons.prems(2) obtain a ys' where
    fa: "f x = Inr a" and fr: "collect f xs = Inr ys'" and ys: "ys = a @ ys'"
    by (auto split: sum.splits)
  from Cons.prems(3) obtain b zs' where
    gb: "g x = Inr b" and gr: "collect g xs = Inr zs'" and zs: "zs = b @ zs'"
    by (auto split: sum.splits)
  have "map h a = map h b" using Cons.prems(1) [OF _ fa gb] by simp
  moreover have "map h ys' = map h zs'"
  proof (rule Cons.IH [OF _ fr gr])
    fix y a' b'
    assume "y \<in> set xs" "f y = Inr a'" "g y = Inr b'"
    then show "map h a' = map h b'" using Cons.prems(1) [of y a' b'] by simp
  qed
  ultimately show ?case using ys zs by simp
qed

lemma float_eq_refl: "x \<noteq> NaN \<Longrightarrow> float_eq x x"
  by (cases x) simp_all

lemma py_eq_refl: "no_nan v \<Longrightarrow> py_eq v v"
proof (induction v)
  case (VList xs)
  then have "\<And>x. x \<in> set xs \<Longrightarrow> py_eq x x"
    by (simp add: list_all_iff)
  then have "list_all2 py_eq xs xs"
    by (simp add: list_all2_same)
  then show ?case by simp
qed (simp_all add: float_eq_refl)

lemma py_eq_sharing_refl: "no_nan v \<Longrightarrow> py_eq_sharing same v v"
proof (cases v)
  case (VList xs)
  assume "no_nan v"
  with VList have "\<And>x. x \<in> set xs \<Longrightarrow> py_eq x x"
    by (simp add: list_all_iff py_eq_refl)
  then have "\<And>k x y. (k, x, y) \<in> set (enumerate 0 (zip xs xs)) \<Longrightarrow> py_eq x y"
    by (auto simp: in_set_enumerate_eq in_set_zip)
  then have "list_all (\<lambda>(k, x, y). same k \<or> py_eq x y) (enumerate 0 (zip xs xs))"
    by (auto simp: list_all_iff)
  with VList show ?thesis by (simp add: py_eq_sharing_def)
qed (simp_all add: py_eq_sharing_def float_eq_refl)

lemma bit_length_nonpos: "n \<le> 0 \<Longrightarrow> bit_length n = 0"
  by (subst bit_length.simps) simp

lemma bit_length_pos: "0 < n \<Longrightarrow> bit_length n = Suc (bit_length (n div 2))"
  by (subst bit_length.simps) simp

lemma bit_length_0: "bit_length 0 = 0"
  by (simp add: bit_length_nonpos)

lemma to_binary64_0: "to_binary64 0 = Finite 0"
  by (simp add: to_binary64_def Let_def bit_length_0)

lemma tolerance_positive: "0 < literal_1e_7"
  by (simp add: literal_1e_7_def)

lemma cmp_fields_equal_refl:
  assumes "comparable_field f"
  shows "cmp_fields_equal same f f"
proof (cases "fvalue f")
  case (VFloat w)
  with assms obtain q where "f32_float w = Finite q"
    by (auto simp: comparable_field_def split: pyfloat.splits)
  with VFloat show ?thesis
    by (simp add: cmp_fields_equal_def to_binary64_0 tolerance_positive)
next
  case (VList xs)
  with assms have "no_nan (VList xs)" by (simp add: comparable_field_def)
  then have "py_eq_sharing same (VList xs) (VList xs)" by (rule py_eq_sharing_refl)
  with VList show ?thesis by (simp add: cmp_fields_equal_def)
next
  case (VInt i)
  then show ?thesis by (simp add: cmp_fields_equal_def py_eq_sharing_def)
next
  case (VStr t)
  then show ?thesis by (simp add: cmp_fields_equal_def py_eq_sharing_def)
qed

section \<open>Compare: reflexivity and the baseline\<close>

lemmas ex_defs = ex_entry_def ex_file_def int_field_def inf_field_def one_field_def
  name_A_def name_B_def new_ParFile_def no_labels_def

lemmas cmp_defs = cmp_run_compare_def compare_index_def nth_opt_def compare_lists_def
  by_name_def compare_name_def compare_field_def cmp_fields_equal_def py_eq_sharing_def
  f32_float_def cmp_field_value_str_def no_sharing_def all_shared_def

lemma compare_field_refl:
  assumes "fi < length (entry_fields e)" and "comparable_field (entry_fields e ! fi)"
  shows "compare_field sh labels fc li nm (i, e) (j, e) oe fi = Inr []"
  using assms(1) cmp_fields_equal_refl [OF assms(2), of "sh li i fi"]
  by (simp add: compare_field_def nth_opt_def)

lemma compare_name_refl:
  assumes "map_of bn nm = Some (i, e)" and "list_all comparable_field (entry_fields e)"
  shows "compare_name sh labels fc li bn bn ob nm = Inr []"
proof -
  have "collect (compare_field sh labels fc li nm (i, e) (i, e) oe) [0 ..< length (entry_fields e)]
        = Inr []" for oe
  proof (rule collect_all_Nil)
    fix fi assume "fi \<in> set [0 ..< length (entry_fields e)]"
    then have lt: "fi < length (entry_fields e)" by simp
    with assms(2) have "comparable_field (entry_fields e ! fi)"
      by (simp add: list_all_length)
    with lt show "compare_field sh labels fc li nm (i, e) (i, e) oe fi = Inr []"
      by (rule compare_field_refl)
  qed
  with assms(1) show ?thesis
    by (simp add: compare_name_def)
qed

lemma compare_lists_refl:
  assumes "list_all (\<lambda>e. list_all comparable_field (entry_fields e)) (entries pl)"
  shows "compare_lists sh labels li pl pl ol = Inr []"
proof -
  let ?bn = "by_name (entries pl)"
  have each: "compare_name sh labels fc li ?bn ?bn ob nm = Inr []"
    if "nm \<in> set (sorted_list_of_set (set (map fst ?bn @ map fst ?bn)))" for nm fc ob
  proof -
    from that have "nm \<in> fst ` set ?bn" by simp
    then obtain i e where m: "map_of ?bn nm = Some (i, e)"
      by (metis map_of_eq_None_iff not_None_eq surj_pair)
    then have "is_last_named (entries pl) i nm" and e: "e = entries pl ! i"
      by (simp_all add: map_of_by_name_Some)
    then have "e \<in> set (entries pl)" by (simp add: is_last_named_def)
    with assms have "list_all comparable_field (entry_fields e)"
      by (simp add: list_all_iff)
    with m show ?thesis by (rule compare_name_refl)
  qed
  show ?thesis
    unfolding compare_lists_def Let_def
    by (rule collect_all_Nil) (rule each)
qed

text \<open>
  Where every float field is finite and no other value holds a NaN, the compare of a
  model with itself returns and produces no diff record, whatever the sharing, the
  baseline and the label table.
\<close>

lemma compare_reflexive_on_finite:
  assumes "comparable_model m"
  shows "cmp_run_compare sh labels m m orig = Inr []"
proof -
  have "compare_index sh labels m m orig li = Inr []"
    if "li \<in> set [0 ..< max (length (par_lists m)) (length (par_lists m))]" for li
  proof -
    from that have lt: "li < length (par_lists m)" by simp
    then have "par_lists m ! li \<in> set (par_lists m)" by simp
    with assms have
      "list_all (\<lambda>e. list_all comparable_field (entry_fields e)) (entries (par_lists m ! li))"
      by (simp add: comparable_model_def list_all_iff)
    then have "compare_lists sh labels li (par_lists m ! li) (par_lists m ! li) ol = Inr []" for ol
      by (rule compare_lists_refl)
    with lt show ?thesis
      by (simp add: compare_index_def nth_opt_def)
  qed
  then show ?thesis
    unfolding cmp_run_compare_def Let_def by (rule collect_all_Nil)
qed

lemma compare_reflexive_example:
  "cmp_run_compare sh no_labels finite_model finite_model None = Inr []"
proof -
  have "comparable_model finite_model"
    by (simp add: comparable_model_def comparable_field_def finite_model_def ex_defs f32_float_def)
  then show ?thesis by (rule compare_reflexive_on_finite)
qed

text \<open>
  On a NaN inside an array the outcome depends on the objects: compared with itself
  as one object the model gives no record, since the list comparison takes an
  element that is the same object as equal; loaded twice, so that the two models
  share no object, the same content is reported as changed.
\<close>

lemma nan_array_compared:
  "cmp_run_compare all_shared no_labels nan_array_model nan_array_model None = Inr [] \<and>
   cmp_run_compare no_sharing no_labels nan_array_model nan_array_model None =
     Inr [\<lparr>diff_type = Changed, list_idx = 0, entry_name = name_A, field_idx = 0,
           field_label = [], source_val = StrOf (VList [VFloat 0x7FC00000]),
           input_val = StrOf (VList [VFloat 0x7FC00000]),
           original_val = Dash, src_li = 0, src_ei = 0, inp_li = 0, inp_ei = 0\<rparr>]"
  by (simp add: nan_array_model_def ex_defs cmp_defs)

text \<open>
  C5 at a failing input. A model whose only field is the float \<open>+inf\<close>, as both
  source and input: \<^verbatim>\<open>_cmp_fields_equal\<close> finds \<^verbatim>\<open>abs(inf - inf) < 1e-7\<close> false, the
  difference being NaN, so the field is not skipped although it is identical
  (\<^verbatim>\<open># Skip if identical\<close>), and the formatting of the field for the diff record
  raises \<^verbatim>\<open>OverflowError\<close> in \<^verbatim>\<open>int(v)\<close>. The compare returns no list of records,
  whether the two models are one object or two loads of one file.
\<close>

theorem diff_not_reflexive_on_infinity:
  "cmp_run_compare all_shared no_labels inf_model inf_model None = Inl OverflowError \<and>
   cmp_run_compare no_sharing no_labels inf_model inf_model None = Inl OverflowError \<and>
   cmp_run_compare all_shared no_labels inf_model inf_model None \<noteq> Inr []"
  by (simp add: inf_model_def ex_defs cmp_defs)

text \<open>
  C8 at a failing input. Source and input differ in an int field (10 against 12).
  With no baseline the compare returns one \<open>Changed\<close> record; with a baseline whose
  field at that place is the float \<open>+inf\<close>, formatting the baseline value raises and
  the compare returns no record at all.
\<close>

theorem baseline_changes_outcome:
  "cmp_run_compare no_sharing no_labels src_10 inp_12 None =
     Inr [\<lparr>diff_type = Changed, list_idx = 0, entry_name = name_A, field_idx = 0,
           field_label = [], source_val = StrOf (VInt 10), input_val = StrOf (VInt 12),
           original_val = Dash, src_li = 0, src_ei = 0, inp_li = 0, inp_ei = 0\<rparr>] \<and>
   cmp_run_compare no_sharing no_labels src_10 inp_12 (Some inf_baseline) = Inl OverflowError"
  by (simp add: src_10_def inp_12_def inf_baseline_def ex_defs cmp_defs)

section \<open>Compare: the baseline\<close>

text \<open>
  The baseline enters a record through \<open>original_val\<close> only: where the compare
  returns under two baselines, the two record sequences are the same once the
  displayed baseline value is dropped.
\<close>

lemma compare_field_baseline:
  assumes "compare_field sh labels fc li nm s i oe1 fi = Inr a"
    and "compare_field sh labels fc li nm s i oe2 fi = Inr b"
  shows "map drop_original a = map drop_original b"
proof -
  obtain sei se where s: "s = (sei, se)" by (cases s)
  obtain iei ie where i: "i = (iei, ie)" by (cases i)
  let ?sf = "nth_opt (entry_fields se) fi"
  let ?if = "nth_opt (entry_fields ie) fi"
  show ?thesis
  proof (cases "case (?sf, ?if) of (Some x, Some y) \<Rightarrow> cmp_fields_equal (sh li sei fi) x y
                 | _ \<Rightarrow> False")
    case True
    with assms s i show ?thesis by (simp add: compare_field_def)
  next
    case False
    from assms(1) s i False obtain sv iv ov1 where
      a: "a = [\<lparr>diff_type = Changed, list_idx = int li, entry_name = nm,
                field_idx = int fi,
                field_label = (case labels fc fi of None \<Rightarrow> [] | Some l \<Rightarrow> l),
                source_val = sv, input_val = iv, original_val = ov1,
                src_li = int li, src_ei = int sei, inp_li = int li, inp_ei = int iei\<rparr>]"
      and sv: "cmp_field_value_str ?sf = Inr sv" and iv: "cmp_field_value_str ?if = Inr iv"
      by (auto simp: compare_field_def Let_def split: sum.splits)
    from assms(2) s i False sv iv obtain ov2 where
      b: "b = [\<lparr>diff_type = Changed, list_idx = int li, entry_name = nm,
                field_idx = int fi,
                field_label = (case labels fc fi of None \<Rightarrow> [] | Some l \<Rightarrow> l),
                source_val = sv, input_val = iv, original_val = ov2,
                src_li = int li, src_ei = int sei, inp_li = int li, inp_ei = int iei\<rparr>]"
      by (auto simp: compare_field_def Let_def split: sum.splits)
    from a b show ?thesis by (simp add: drop_original_def)
  qed
qed

lemma compare_name_baseline:
  assumes "compare_name sh labels fc li sb ib ob1 nm = Inr a"
    and "compare_name sh labels fc li sb ib ob2 nm = Inr b"
  shows "map drop_original a = map drop_original b"
proof (cases "map_of sb nm")
  case None
  with assms show ?thesis
    by (cases "map_of ib nm") (auto simp: compare_name_def)
next
  case (Some p)
  obtain sei se where p: "p = (sei, se)" by (cases p)
  show ?thesis
  proof (cases "map_of ib nm")
    case None
    with Some p assms show ?thesis by (auto simp: compare_name_def)
  next
    case iSome: (Some q)
    obtain iei ie where q: "q = (iei, ie)" by (cases q)
    from assms(2) Some p iSome q obtain oe2 where
      c2: "collect (compare_field sh labels fc li nm (sei, se) (iei, ie) oe2)
             [0 ..< max (length (entry_fields se)) (length (entry_fields ie))] = Inr b"
      by (simp add: compare_name_def Let_def)
    from assms(1) Some p iSome q obtain oe1 where
      c1: "collect (compare_field sh labels fc li nm (sei, se) (iei, ie) oe1)
             [0 ..< max (length (entry_fields se)) (length (entry_fields ie))] = Inr a"
      by (simp add: compare_name_def Let_def)
    show ?thesis
    proof (rule collect_map_eq [OF _ c1 c2])
      fix x u v
      assume "compare_field sh labels fc li nm (sei, se) (iei, ie) oe1 x = Inr u"
        and "compare_field sh labels fc li nm (sei, se) (iei, ie) oe2 x = Inr v"
      then show "map drop_original u = map drop_original v"
        by (rule compare_field_baseline)
    qed
  qed
qed

lemma compare_lists_baseline:
  assumes "compare_lists sh labels li sl il ol1 = Inr a"
    and "compare_lists sh labels li sl il ol2 = Inr b"
  shows "map drop_original a = map drop_original b"
proof -
  from assms(1) obtain fc names ob1 where
    fc: "fc = (if entries sl \<noteq> [] then length (entry_fields (entries sl ! 0))
               else if entries il \<noteq> [] then length (entry_fields (entries il ! 0)) else 0)"
    and names: "names = sorted_list_of_set
                  (set (map fst (by_name (entries sl)) @ map fst (by_name (entries il))))"
    and c1: "collect (compare_name sh labels fc li (by_name (entries sl)) (by_name (entries il)) ob1)
               names = Inr a"
    by (simp add: compare_lists_def Let_def)
  from assms(2) fc names obtain ob2 where
    c2: "collect (compare_name sh labels fc li (by_name (entries sl)) (by_name (entries il)) ob2)
               names = Inr b"
    by (simp add: compare_lists_def Let_def)
  show ?thesis
  proof (rule collect_map_eq [OF _ c1 c2])
    fix x u v
    assume "compare_name sh labels fc li (by_name (entries sl)) (by_name (entries il)) ob1 x = Inr u"
      and "compare_name sh labels fc li (by_name (entries sl)) (by_name (entries il)) ob2 x = Inr v"
    then show "map drop_original u = map drop_original v"
      by (rule compare_name_baseline)
  qed
qed

lemma compare_index_baseline:
  assumes "compare_index sh labels src inp o1 li = Inr a"
    and "compare_index sh labels src inp o2 li = Inr b"
  shows "map drop_original a = map drop_original b"
proof (cases "nth_opt (par_lists src) li")
  case None
  with assms show ?thesis
    by (cases "nth_opt (par_lists inp) li") (auto simp: compare_index_def)
next
  case (Some sl)
  show ?thesis
  proof (cases "nth_opt (par_lists inp) li")
    case None
    with Some assms show ?thesis by (auto simp: compare_index_def)
  next
    case iSome: (Some il)
    from assms(1) Some iSome obtain ol1 where
      "compare_lists sh labels li sl il ol1 = Inr a"
      by (simp add: compare_index_def)
    moreover from assms(2) Some iSome obtain ol2 where
      "compare_lists sh labels li sl il ol2 = Inr b"
      by (simp add: compare_index_def)
    ultimately show ?thesis by (rule compare_lists_baseline)
  qed
qed

lemma baseline_only_in_original_val:
  assumes "cmp_run_compare sh labels src inp o1 = Inr ds1"
    and "cmp_run_compare sh labels src inp o2 = Inr ds2"
  shows "map drop_original ds1 = map drop_original ds2"
proof -
  let ?n = "max (length (par_lists src)) (length (par_lists inp))"
  from assms have
    c1: "collect (compare_index sh labels src inp o1) [0 ..< ?n] = Inr ds1" and
    c2: "collect (compare_index sh labels src inp o2) [0 ..< ?n] = Inr ds2"
    by (simp_all add: cmp_run_compare_def Let_def)
  show ?thesis
  proof (rule collect_map_eq [OF _ c1 c2])
    fix x u v
    assume "compare_index sh labels src inp o1 x = Inr u"
      and "compare_index sh labels src inp o2 x = Inr v"
    then show "map drop_original u = map drop_original v"
      by (rule compare_index_baseline)
  qed
qed

section \<open>Compare: which entries a record refers to\<close>

lemma compare_field_located:
  assumes "compare_field sh labels fc li nm (sei, se) (iei, ie) oe fi = Inr ds"
    and "d \<in> set ds"
    and "fi < max (length (entry_fields se)) (length (entry_fields ie))"
  shows "diff_type d = Changed \<and> list_idx d = int li \<and> entry_name d = nm \<and>
         src_li d = int li \<and> inp_li d = int li \<and> src_ei d = int sei \<and> inp_ei d = int iei \<and>
         field_idx d = int fi \<and> compared (sh li sei fi) se ie d"
proof -
  let ?sf = "nth_opt (entry_fields se) fi"
  let ?if = "nth_opt (entry_fields ie) fi"
  let ?eq = "case (?sf, ?if) of (Some a, Some b) \<Rightarrow> cmp_fields_equal (sh li sei fi) a b
             | _ \<Rightarrow> False"
  have ne: "\<not> ?eq"
  proof
    assume ?eq
    with assms(1) have "ds = []" by (simp add: compare_field_def)
    with assms(2) show False by simp
  qed
  with assms(1) obtain sv iv ov lb where
    sv: "cmp_field_value_str ?sf = Inr sv" and iv: "cmp_field_value_str ?if = Inr iv" and
    ds: "ds = [\<lparr>diff_type = Changed, list_idx = int li, entry_name = nm,
                 field_idx = int fi, field_label = lb,
                 source_val = sv, input_val = iv, original_val = ov,
                 src_li = int li, src_ei = int sei, inp_li = int li, inp_ei = int iei\<rparr>]"
    unfolding compare_field_def Let_def
    by (auto split: sum.splits)
  from ds assms(2) have d: "d = \<lparr>diff_type = Changed, list_idx = int li, entry_name = nm,
                 field_idx = int fi, field_label = lb,
                 source_val = sv, input_val = iv, original_val = ov,
                 src_li = int li, src_ei = int sei, inp_li = int li, inp_ei = int iei\<rparr>"
    by simp
  have "compared (sh li sei fi) se ie d"
    unfolding compared_def Let_def using ne sv iv assms(3) by (simp add: d)
  then show ?thesis by (simp add: d)
qed

lemma compare_name_located:
  assumes "compare_name sh labels fc li (by_name ses) (by_name ies) ob nm = Inr ds"
    and "d \<in> set ds"
  shows "located_last sh li ses ies d \<and> entry_name d = nm"
proof (cases "map_of (by_name ses) nm")
  case sNone: None
  show ?thesis
  proof (cases "map_of (by_name ies) nm")
    case None
    with sNone assms show ?thesis by (simp add: compare_name_def)
  next
    case (Some p)
    obtain iei ie where p: "p = (iei, ie)" by (cases p)
    from Some p have "is_last_named ies iei nm"
      by (simp add: map_of_by_name_Some)
    moreover from sNone have "nm \<notin> name ` set ses"
      by (simp add: map_of_by_name_None)
    ultimately show ?thesis
      using sNone Some p assms
      by (auto simp: compare_name_def located_last_def)
  qed
next
  case sSome: (Some q)
  obtain sei se where q: "q = (sei, se)" by (cases q)
  from sSome q have sl: "is_last_named ses sei nm" and se: "se = ses ! sei"
    by (simp_all add: map_of_by_name_Some)
  show ?thesis
  proof (cases "map_of (by_name ies) nm")
    case None
    then have "nm \<notin> name ` set ies"
      by (simp add: map_of_by_name_None)
    with sl show ?thesis
      using sSome None q assms
      by (auto simp: compare_name_def located_last_def)
  next
    case (Some p)
    obtain iei ie where p: "p = (iei, ie)" by (cases p)
    from Some p have il: "is_last_named ies iei nm" and ie: "ie = ies ! iei"
      by (simp_all add: map_of_by_name_Some)
    let ?oe = "case map_of ob nm of None \<Rightarrow> None | Some (oi, e) \<Rightarrow> Some e"
    let ?n = "max (length (entry_fields se)) (length (entry_fields ie))"
    from assms(1) sSome Some q p have
      c: "collect (compare_field sh labels fc li nm (sei, se) (iei, ie) ?oe) [0 ..< ?n] = Inr ds"
      by (simp add: compare_name_def)
    from collect_Inr_elem [OF c assms(2)] obtain fi zs where
      fi: "fi < ?n" and z: "compare_field sh labels fc li nm (sei, se) (iei, ie) ?oe fi = Inr zs"
      and dz: "d \<in> set zs"
      by auto
    from compare_field_located [OF z dz fi] sl il se ie show ?thesis
      by (simp add: located_last_def)
  qed
qed

lemma compare_lists_located:
  assumes "compare_lists sh labels li sl il ol = Inr ds" and "d \<in> set ds"
  shows "located_last sh li (entries sl) (entries il) d"
proof -
  from assms(1) obtain fc ob names where
    c: "collect (compare_name sh labels fc li (by_name (entries sl)) (by_name (entries il)) ob)
          names = Inr ds"
    by (simp add: compare_lists_def Let_def)
  from collect_Inr_elem [OF c assms(2)] obtain nm zs where
    "compare_name sh labels fc li (by_name (entries sl)) (by_name (entries il)) ob nm = Inr zs"
    and "d \<in> set zs"
    by auto
  then show ?thesis using compare_name_located by blast
qed


lemma input_only_list_elem:
  assumes "d \<in> set (input_only_list li il)"
  shows "diff_type d = InputOnly \<and> list_idx d = int li \<and> inp_li d = int li \<and>
         0 \<le> inp_ei d \<and> nat (inp_ei d) < length (entries il) \<and>
         entry_name d = name (entries il ! nat (inp_ei d))"
proof -
  from assms obtain ei e where "(ei, e) \<in> set (enumerate 0 (entries il))"
    and d: "d = \<lparr>diff_type = InputOnly, list_idx = int li, entry_name = name e,
             field_idx = - 1, field_label = [], source_val = Dash,
             input_val = NumFields (length (entry_fields e)), original_val = Dash,
             src_li = - 1, src_ei = - 1, inp_li = int li, inp_ei = int ei\<rparr>"
    unfolding input_only_list_def by auto
  then have "ei < length (entries il)" and "e = entries il ! ei"
    by (simp_all add: in_set_enumerate_eq)
  with d show ?thesis by simp
qed

lemma source_only_list_elem:
  assumes "d \<in> set (source_only_list li sl)"
  shows "diff_type d = SourceOnly \<and> list_idx d = int li"
  using assms unfolding source_only_list_def by auto

lemma compare_index_list_idx:
  assumes "compare_index sh labels src inp orig li = Inr ds" and "d \<in> set ds"
  shows "list_idx d = int li"
proof (cases "nth_opt (par_lists src) li")
  case sNone: None
  show ?thesis
  proof (cases "nth_opt (par_lists inp) li")
    case None
    with sNone assms show ?thesis by (simp add: compare_index_def)
  next
    case (Some il)
    with sNone assms have "d \<in> set (input_only_list li il)"
      by (auto simp: compare_index_def)
    then show ?thesis by (simp add: input_only_list_elem)
  qed
next
  case sSome: (Some sl)
  show ?thesis
  proof (cases "nth_opt (par_lists inp) li")
    case None
    with sSome assms have "d \<in> set (source_only_list li sl)"
      by (auto simp: compare_index_def)
    then show ?thesis by (simp add: source_only_list_elem)
  next
    case (Some il)
    with sSome assms obtain ol where "compare_lists sh labels li sl il ol = Inr ds"
      by (auto simp: compare_index_def)
    from compare_lists_located [OF this assms(2)] show ?thesis
      by (simp add: located_last_def)
  qed
qed

lemma compare_index_shared:
  assumes "compare_index sh labels src inp orig li = Inr ds" and "d \<in> set ds"
    and "li < length (par_lists src)" and "li < length (par_lists inp)"
  shows "located_last sh li (entries (par_lists src ! li)) (entries (par_lists inp ! li)) d"
proof -
  from assms(1,3,4) obtain ol where
    "compare_lists sh labels li (par_lists src ! li) (par_lists inp ! li) ol = Inr ds"
    by (auto simp: compare_index_def nth_opt_def)
  from compare_lists_located [OF this assms(2)] show ?thesis .
qed

text \<open>
  C10. Where source and input both have a list at a record's list index, every
  record the compare returns for that index is located at the last entries of its
  name: the entry coordinates it carries are those of the last entry bearing the
  name on each side, a \<open>Changed\<close> record compares the fields of these two entries,
  and so no record carries the coordinates of an earlier duplicate.
\<close>

theorem duplicate_names_last_wins:
  assumes "cmp_run_compare sh labels src inp orig = Inr ds" and "d \<in> set ds"
    and "nat (list_idx d) < length (par_lists src)"
    and "nat (list_idx d) < length (par_lists inp)"
  shows "located_last sh (nat (list_idx d))
           (entries (par_lists src ! nat (list_idx d)))
           (entries (par_lists inp ! nat (list_idx d))) d"
proof -
  from assms(1) obtain n where
    c: "collect (compare_index sh labels src inp orig) [0 ..< n] = Inr ds"
    by (simp add: cmp_run_compare_def Let_def)
  from collect_Inr_elem [OF c assms(2)] obtain li zs where
    z: "compare_index sh labels src inp orig li = Inr zs" and dz: "d \<in> set zs"
    by auto
  from compare_index_list_idx [OF z dz] have li: "nat (list_idx d) = li" by simp
  with assms(3,4) have "li < length (par_lists src)" and "li < length (par_lists inp)"
    by simp_all
  from compare_index_shared [OF z dz this] li show ?thesis by simp
qed


theorem duplicate_names_last_wins_witness:
  "cmp_run_compare no_sharing no_labels dup_src dup_inp None = Inr [dup_record] \<and>
   located_last no_sharing 0 (entries (par_lists dup_src ! 0)) (entries (par_lists dup_inp ! 0)) dup_record"
proof -
  have run: "cmp_run_compare no_sharing no_labels dup_src dup_inp None = Inr [dup_record]"
    by (simp add: dup_src_def dup_inp_def dup_record_def ex_defs cmp_defs)
  have "dup_record \<in> set [dup_record]" by simp
  from duplicate_names_last_wins [OF run this] run show ?thesis
    by (simp add: dup_record_def dup_src_def dup_inp_def ex_file_def new_ParFile_def)
qed

section \<open>Merge: one round of the loop\<close>

lemmas merge_defs = cmp_merge_def selected_diffs_def checked_def merge_step_def
  merge_changed_def merge_input_only_def py_get_def py_set_def py_index_def
  pad_fields_def pad_lists_def copy_value_def new_ParList_def

lemma py_get_nonneg: "0 \<le> i \<Longrightarrow> nat i < length xs \<Longrightarrow> py_get xs i = Inr (xs ! nat i)"
  by (simp add: py_get_def py_index_def)

lemma py_set_nonneg: "0 \<le> i \<Longrightarrow> nat i < length xs \<Longrightarrow> py_set xs i v = Inr (xs[nat i := v])"
  by (simp add: py_set_def py_index_def)

lemma length_pad_fields: "length (pad_fields fs fi) = max (length fs) (nat (fi + 1))"
  by (simp add: pad_fields_def)


lemma ParField_rebuild: "\<lparr>dtype = dtype f, fvalue = copy_value (fvalue f)\<rparr> = f"
  by (simp add: copy_value_def)

text \<open>What \<^verbatim>\<open>merge_changed\<close> computes when the coordinates of the record resolve.\<close>

lemma merge_changed_resolved:
  assumes "0 \<le> src_li d" "nat (src_li d) < length (par_lists src)"
    and "0 \<le> src_ei d" "nat (src_ei d) < length (entries (par_lists src ! nat (src_li d)))"
    and "0 \<le> inp_li d" "nat (inp_li d) < length (par_lists inp)"
    and "0 \<le> inp_ei d" "nat (inp_ei d) < length (entries (par_lists inp ! nat (inp_li d)))"
    and "0 \<le> field_idx d"
  shows "merge_changed inp d (src, c, a) =
     (let sl = par_lists src ! nat (src_li d);
          se = entries sl ! nat (src_ei d);
          ie = entries (par_lists inp ! nat (inp_li d)) ! nat (inp_ei d)
      in if nat (field_idx d) < length (entry_fields ie)
         then Inr (src\<lparr>par_lists := (par_lists src)
                      [nat (src_li d) := sl\<lparr>entries := (entries sl)
                         [nat (src_ei d) := se\<lparr>entry_fields :=
                            (pad_fields (entry_fields se) (field_idx d))
                              [nat (field_idx d) := entry_fields ie ! nat (field_idx d)]\<rparr>]\<rparr>]\<rparr>,
                   c + 1, a)
         else Inr (src, c, a))"
proof -
  let ?ie = "entries (par_lists inp ! nat (inp_li d)) ! nat (inp_ei d)"
  let ?se = "entries (par_lists src ! nat (src_li d)) ! nat (src_ei d)"
  have g: "py_get (entry_fields ?ie) (field_idx d) = Inr (entry_fields ?ie ! nat (field_idx d))"
    if "nat (field_idx d) < length (entry_fields ?ie)"
    using assms(9) that by (rule py_get_nonneg)
  have "nat (field_idx d) < length (pad_fields (entry_fields ?se) (field_idx d))"
    using assms(9) by (simp add: length_pad_fields)
  then have s: "py_set (pad_fields (entry_fields ?se) (field_idx d)) (field_idx d) v =
      Inr ((pad_fields (entry_fields ?se) (field_idx d))[nat (field_idx d) := v])" for v
    using assms(9) by (simp add: py_set_nonneg)
  have lt: "field_idx d < int (length (entry_fields ?ie)) \<longleftrightarrow>
            nat (field_idx d) < length (entry_fields ?ie)"
    using assms(9) by linarith
  have c1: "src_li d < int (length (par_lists src))" using assms(1,2) by linarith
  have c2: "src_ei d < int (length (entries (par_lists src ! nat (src_li d))))"
    using assms(3,4) by linarith
  have c3: "inp_li d < int (length (par_lists inp))" using assms(5,6) by linarith
  have c4: "inp_ei d < int (length (entries (par_lists inp ! nat (inp_li d))))"
    using assms(7,8) by linarith
  show ?thesis
    unfolding merge_changed_def Let_def
    using assms(1,3,5,7) c1 c2 c3 c4 lt g s
    by (simp add: ParField_rebuild)
qed




lemma select_all_fold:
  "fold (\<lambda>(i, d) c. if diff_type d \<noteq> SourceOnly then c(i \<mapsto> True) else c) (enumerate n ds) cs i
   = (if n \<le> i \<and> i < n + length ds \<and> diff_type (ds ! (i - n)) \<noteq> SourceOnly
      then Some True else cs i)"
proof (induction ds arbitrary: n cs)
  case Nil
  show ?case by auto
next
  case (Cons d ds)
  have ih: "fold (\<lambda>(i, d) c. if diff_type d \<noteq> SourceOnly then c(i \<mapsto> True) else c)
              (enumerate (Suc n) ds) cs' i
            = (if Suc n \<le> i \<and> i < Suc n + length ds \<and> diff_type (ds ! (i - Suc n)) \<noteq> SourceOnly
               then Some True else cs' i)" for cs'
    by (rule Cons.IH)
  consider "i < n" | "i = n" | "Suc n \<le> i" by linarith
  then show ?case
  proof cases
    case 1
    then show ?thesis by (simp add: ih)
  next
    case 2
    have "fold (\<lambda>(i, d) c. if diff_type d \<noteq> SourceOnly then c(i \<mapsto> True) else c)
              (enumerate (Suc n) ds) cs' n = cs' n" for cs'
      using ih [of cs'] 2 by simp
    with 2 show ?thesis by simp
  next
    case 3
    then have "(d # ds) ! (i - n) = ds ! (i - Suc n)"
      by (simp add: nth_Cons')
    with 3 show ?thesis by (simp add: ih)
  qed
qed

lemma merge_loop_append:
  "merge_loop inp (xs @ ys) st =
     (case merge_loop inp xs st of Inl e \<Rightarrow> Inl e | Inr st' \<Rightarrow> merge_loop inp ys st')"
  by (induction xs arbitrary: st) (simp_all split: sum.splits)

text \<open>
  C9 (amended). A \<open>SourceOnly\<close> record is kept out of the selection before the
  merge and is ignored by it: a click on the check column of its row leaves the
  checkboxes as they are, "select all" leaves its checkbox as it is, and the merge
  loop treats it as absent: one round on it returns the state unchanged, with no error,
  and a selection that holds it merges exactly as the selection without it.
\<close>

theorem source_only_unselectable_and_ignored:
  assumes "idx < length ds" and "diff_type (ds ! idx) = SourceOnly"
  shows "cmp_on_tree_click ds cs idx = cs \<and>
         cmp_select_all ds cs idx = cs idx \<and>
         merge_step inp (ds ! idx) st = Inr st \<and>
         merge_loop inp (xs @ ds ! idx # ys) st = merge_loop inp (xs @ ys) st"
proof -
  have step: "merge_step inp (ds ! idx) st' = Inr st'" for st'
    using assms(2) by (simp add: merge_step_def)
  have "merge_loop inp (xs @ ds ! idx # ys) st = merge_loop inp (xs @ ys) st"
    by (simp add: merge_loop_append step split: sum.splits)
  moreover have "cmp_select_all ds cs idx = cs idx"
    using assms by (simp add: cmp_select_all_def select_all_fold)
  ultimately show ?thesis
    using assms(2) step by (simp add: cmp_on_tree_click_def)
qed

theorem source_only_unselectable_and_ignored_witness:
  "cmp_on_tree_click [source_only_record] Map.empty 0 = Map.empty \<and>
   cmp_select_all [source_only_record] Map.empty 0 = None \<and>
   merge_step inp_12 source_only_record (src_10, 0, 0) = Inr (src_10, 0, 0) \<and>
   merge_loop inp_12 [changed_record, source_only_record] (src_10, 0, 0) =
     merge_loop inp_12 [changed_record] (src_10, 0, 0)"
proof -
  have a: "0 < length [source_only_record]" by simp
  have b: "diff_type ([source_only_record] ! 0) = SourceOnly"
    by (simp add: source_only_record_def)
  from source_only_unselectable_and_ignored
    [OF a b, of Map.empty inp_12 "(src_10, 0, 0)" "[changed_record]" "[]"]
  show ?thesis by simp
qed

text \<open>
  C9 as stated fails: \<^verbatim>\<open>_cmp_merge\<close> run on a selection that holds only a
  \<open>SourceOnly\<close> record returns normally, with the source unchanged and both counts
  zero; nothing is rejected or reported.
\<close>

theorem source_only_selection_not_rejected:
  "cmp_merge src_10 inp_12 [source_only_record] all_checked = Inr (src_10, 0, 0)"
  by (simp add: merge_defs source_only_record_def all_checked_def)




section \<open>The byte cursor: what is written is read back\<close>

lemma length_nat_le [simp]: "length (nat_le k v) = k"
  by (induction k arbitrary: v) simp_all

lemma le_nat_bound: "le_nat bs < 256 ^ length bs"
proof (induction bs)
  case Nil
  show ?case by simp
next
  case (Cons b bs)
  have "unat b < 256" using unsigned_less [of b, where ?'a = nat] by simp
  with Cons show ?case by simp
qed

lemma le_nat_nat_le: "le_nat (nat_le k v) = v mod 256 ^ k"
proof (induction k arbitrary: v)
  case 0
  show ?case by simp
next
  case (Suc k)
  have "unat (of_nat (v mod 256) :: byte) = v mod 256"
    by (simp add: unat_of_nat)
  with Suc show ?case
    by (simp add: mod_mult2_eq)
qed

lemma nat_le_le_nat: "nat_le (length bs) (le_nat bs) = bs"
proof (induction bs)
  case Nil
  show ?case by simp
next
  case (Cons b bs)
  have lt: "unat b < 256" using unsigned_less [of b, where ?'a = nat] by simp
  then have "(unat b + 256 * le_nat bs) mod 256 = unat b"
    and "(unat b + 256 * le_nat bs) div 256 = le_nat bs"
    by simp_all
  with Cons show ?case by simp
qed

lemma read_bytes_append: "length a = n \<Longrightarrow> read_bytes n (a @ rest) = Inr (a, rest)"
  by (simp add: read_bytes_def)

lemma read_bytes_Inr:
  "read_bytes n bs = Inr (a, rest) \<Longrightarrow> bs = a @ rest \<and> length a = n"
  by (auto simp: read_bytes_def split: if_splits)


lemma read_bytes_nat_le: "read_bytes k (nat_le k v @ rest) = Inr (nat_le k v, rest)"
  by (simp add: read_bytes_def del: nat_le.simps)

lemma le_nat_nat_le_small: "v < 256 ^ k \<Longrightarrow> le_nat (nat_le k v) = v"
  by (simp add: le_nat_nat_le)

lemma int_mod_nonneg: "0 \<le> (v::int) \<Longrightarrow> v < n \<Longrightarrow> v mod n = v"
  by simp

lemma int_mod_neg:
  assumes "- n \<le> (v::int)" and "v < 0"
  shows "v mod n = v + n"
proof -
  have "v mod n = (v + n) mod n" by simp
  also have "\<dots> = v + n"
    by (rule mod_pos_pos_trivial) (use assms in simp_all)
  finally show ?thesis .
qed

lemma signed_of_1: "- 128 \<le> v \<Longrightarrow> v < 128 \<Longrightarrow> signed_of (Suc 0) (nat (v mod 256)) = v"
proof (cases "0 \<le> v")
  case True
  assume "v < 128"
  with True have "v mod 256 = v" by simp
  with True \<open>v < 128\<close> show ?thesis by (simp add: signed_of_def)
next
  case False
  assume "- 128 \<le> v"
  with False have "v mod 256 = v + 256" by (simp add: int_mod_neg)
  with False \<open>- 128 \<le> v\<close> show ?thesis by (simp add: signed_of_def)
qed

lemma signed_of_4:
  "- 2147483648 \<le> v \<Longrightarrow> v < 2147483648 \<Longrightarrow> signed_of 4 (nat (v mod 4294967296)) = v"
proof (cases "0 \<le> v")
  case True
  assume "v < 2147483648"
  with True have "v mod 4294967296 = v" by simp
  with True \<open>v < 2147483648\<close> show ?thesis by (simp add: signed_of_def)
next
  case False
  assume "- 2147483648 \<le> v"
  with False have "v mod 4294967296 = v + 4294967296" by (simp add: int_mod_neg)
  with False \<open>- 2147483648 \<le> v\<close> show ?thesis by (simp add: signed_of_def)
qed

lemma signed_of_4_range:
  "u < 4294967296 \<Longrightarrow> - 2147483648 \<le> signed_of 4 u \<and> signed_of 4 u < 2147483648"
  by (simp add: signed_of_def)

lemma signed_of_4_back: "u < 4294967296 \<Longrightarrow> nat (signed_of 4 u mod 4294967296) = u"
proof (cases "2147483648 \<le> u")
  case True
  assume "u < 4294967296"
  with True have "(int u - 4294967296) mod 4294967296 = int u"
    by (simp add: int_mod_neg)
  with True show ?thesis by (simp add: signed_of_def)
next
  case False
  then have "int u mod 4294967296 = int u" by simp
  with False show ?thesis by (simp add: signed_of_def)
qed

lemma read_u8_write: "read_u8 (write_u8 v @ rest) = Inr (v mod 256, rest)"
proof -
  have "nat (v mod 256) < 256 ^ 1" by simp
  then have "le_nat (nat_le 1 (nat (v mod 256))) = nat (v mod 256)"
    by (rule le_nat_nat_le_small)
  then show ?thesis
    by (simp add: read_u8_def write_u8_def read_bytes_nat_le del: nat_le.simps)
qed

lemma read_u16_write: "read_u16 (write_u16 v @ rest) = Inr (v mod 65536, rest)"
proof -
  have "nat (v mod 65536) < 256 ^ 2" by simp
  then have "le_nat (nat_le 2 (nat (v mod 65536))) = nat (v mod 65536)"
    by (rule le_nat_nat_le_small)
  then show ?thesis
    by (simp add: read_u16_def write_u16_def read_bytes_nat_le del: nat_le.simps)
qed

lemma read_u32_write: "read_u32 (write_u32 v @ rest) = Inr (v mod 4294967296, rest)"
proof -
  have "nat (v mod 4294967296) < 256 ^ 4" by simp
  then have "le_nat (nat_le 4 (nat (v mod 4294967296))) = nat (v mod 4294967296)"
    by (rule le_nat_nat_le_small)
  then show ?thesis
    by (simp add: read_u32_def write_u32_def read_bytes_nat_le del: nat_le.simps)
qed

lemma read_i8_write:
  assumes "write_i8 v = Inr b"
  shows "read_i8 (b @ rest) = Inr (v, rest)"
proof -
  from assms have r: "- 128 \<le> v" "v < 128" and b: "b = nat_le 1 (nat (v mod 256))"
    by (auto simp: write_i8_def split: if_splits)
  have "nat (v mod 256) < 256 ^ 1" by simp
  then have "le_nat (nat_le 1 (nat (v mod 256))) = nat (v mod 256)"
    by (rule le_nat_nat_le_small)
  with r b show ?thesis
    by (simp add: read_i8_def read_bytes_nat_le signed_of_1 del: nat_le.simps)
qed

lemma read_i32_write:
  assumes "write_i32 v = Inr b"
  shows "read_i32 (b @ rest) = Inr (v, rest)"
proof -
  from assms have r: "- 2147483648 \<le> v" "v < 2147483648"
    and b: "b = nat_le 4 (nat (v mod 4294967296))"
    by (auto simp: write_i32_def split: if_splits)
  have "nat (v mod 4294967296) < 256 ^ 4" by simp
  then have "le_nat (nat_le 4 (nat (v mod 4294967296))) = nat (v mod 4294967296)"
    by (rule le_nat_nat_le_small)
  with r b show ?thesis
    by (simp add: read_i32_def read_bytes_nat_le signed_of_4 del: nat_le.simps)
qed

lemma quiet_nan_idem: "quiet_nan (quiet_nan w) = quiet_nan w"
proof (cases "drop_bit 23 w AND 0xFF = 0xFF \<and> w AND 0x7FFFFF \<noteq> 0")
  case True
  then have q: "quiet_nan w = w OR 0x400000" by (simp add: quiet_nan_def)
  have "quiet_nan (w OR 0x400000) = w OR 0x400000"
    by (simp add: quiet_nan_def or.assoc)
  with q show ?thesis by simp
next
  case False
  then have "quiet_nan w = w" by (auto simp: quiet_nan_def)
  then show ?thesis by simp
qed

lemma le_nat_unat_f32:
  fixes w :: f32
  shows "le_nat (nat_le 4 (unat w)) = unat w"
proof -
  have "unat w < 2 ^ 32" using unsigned_less [of w, where ?'a = nat] by simp
  then have "unat w < 256 ^ 4" by simp
  then show ?thesis by (rule le_nat_nat_le_small)
qed

lemma read_f32_write: "read_f32 (write_f32 w @ rest) = Inr (quiet_nan w, rest)"
  by (simp add: read_f32_def write_f32_def read_bytes_nat_le le_nat_unat_f32 quiet_nan_idem
      del: nat_le.simps)

lemma read_f32_quiet:
  assumes "read_f32 bs = Inr (w, rest)"
  shows "quiet_nan w = w"
  using assms by (auto simp: read_f32_def quiet_nan_idem split: sum.splits)

lemma read_u64_write:
  assumes "write_u64 v = Inr b"
  shows "read_u64 (b @ rest) = Inr (v, rest)"
proof -
  from assms have r: "0 \<le> v" "v < 18446744073709551616" and b: "b = nat_le 8 (nat v)"
    by (auto simp: write_u64_def split: if_splits)
  from r have "nat v < 256 ^ 8" by simp
  then have "le_nat (nat_le 8 (nat v)) = nat v"
    by (rule le_nat_nat_le_small)
  with r b show ?thesis
    by (simp add: read_u64_def read_bytes_nat_le del: nat_le.simps)
qed

lemma decode_encode_ascii:
  "list_all (\<lambda>c. c < 128) s \<Longrightarrow> decode_ascii (encode_ascii s) = s"
proof (induction s)
  case Nil
  show ?case by (simp add: decode_ascii_def encode_ascii_def)
next
  case (Cons c s)
  then have c: "c < 128" by simp
  then have "c mod 256 = c" by simp
  then have "unat (of_nat c :: byte) = c" by (simp add: unat_of_nat)
  with Cons c show ?case
    by (simp add: decode_ascii_def encode_ascii_def)
qed

lemma length_encode_ascii [simp]: "length (encode_ascii s) = length s"
  by (simp add: encode_ascii_def)

lemma read_delphi_string_write_any:
  assumes "length s \<le> 1000000"
  shows "read_delphi_string (write_delphi_string s @ rest) =
           Inr (decode_ascii (encode_ascii s), rest)"
proof -
  from assms have m: "int (length s) mod 4294967296 = int (length s)" by simp
  have r: "read_u32 (write_u32 (int (length s)) @ encode_ascii s @ rest) =
        Inr (int (length s), encode_ascii s @ rest)"
    using read_u32_write [of "int (length s)" "encode_ascii s @ rest"] m by simp
  show ?thesis
  proof (cases "s = []")
    case True
    with r show ?thesis
      by (simp add: read_delphi_string_def write_delphi_string_def decode_ascii_def
          encode_ascii_def)
  next
    case False
    with r assms show ?thesis
      by (simp add: read_delphi_string_def write_delphi_string_def read_bytes_append)
  qed
qed

lemma read_delphi_string_write:
  assumes "wire_string s"
  shows "read_delphi_string (write_delphi_string s @ rest) = Inr (s, rest)"
  using assms read_delphi_string_write_any [of s rest]
  by (simp add: wire_string_def decode_encode_ascii)

lemma read_n_emit:
  assumes "\<And>x. x \<in> set xs \<Longrightarrow> \<exists>b. wr x = Inr b \<and> (\<forall>rest. rd (b @ rest) = Inr (g x, rest))"
  shows "\<exists>bs. emit wr xs = Inr bs \<and>
              (\<forall>rest. read_n rd (length xs) (bs @ rest) = Inr (map g xs, rest))"
  using assms
proof (induction xs)
  case Nil
  show ?case by simp
next
  case (Cons x xs)
  from Cons.prems [of x] obtain b where
    b: "wr x = Inr b" and rb: "\<And>rest. rd (b @ rest) = Inr (g x, rest)"
    by auto
  from Cons.IH Cons.prems obtain bs where
    bs: "emit wr xs = Inr bs"
    and rbs: "\<And>rest. read_n rd (length xs) (bs @ rest) = Inr (map g xs, rest)"
    by auto
  have "read_n rd (length (x # xs)) ((b @ bs) @ rest) = Inr (map g (x # xs), rest)" for rest
    using rb [of "bs @ rest"] rbs [of rest] by simp
  with b bs show ?case by simp
qed

section \<open>Elements and arrays: what is written is read back\<close>

lemma le_nat_4_bound: "length b = 4 \<Longrightarrow> le_nat b < 4294967296"
  using le_nat_bound [of b] by simp

lemma read_u32_range:
  assumes "read_u32 bs = Inr (v, rest)"
  shows "in_u32 v"
proof -
  from assms obtain b where "read_bytes 4 bs = Inr (b, rest)" and v: "v = int (le_nat b)"
    by (auto simp: read_u32_def split: sum.splits)
  then have "length b = 4" by (simp add: read_bytes_Inr)
  then have "le_nat b < 4294967296" by (rule le_nat_4_bound)
  with v show ?thesis by (simp add: in_u32_def)
qed

lemma read_i32_range:
  assumes "read_i32 bs = Inr (v, rest)"
  shows "in_i32 v"
proof -
  from assms obtain b where "read_bytes 4 bs = Inr (b, rest)" and v: "v = signed_of 4 (le_nat b)"
    by (auto simp: read_i32_def split: sum.splits)
  then have "length b = 4" by (simp add: read_bytes_Inr)
  then have "le_nat b < 4294967296" by (rule le_nat_4_bound)
  from signed_of_4_range [OF this] v show ?thesis by (simp add: in_i32_def)
qed

lemma read_element_wire:
  assumes "read_element fmt bs = Inr (x, rest)"
  shows "wire_element fmt x"
proof (cases fmt)
  case Fmt_i
  with assms obtain v where "read_i32 bs = Inr (v, rest)" and "x = VInt v"
    by (auto simp: read_element_def split: sum.splits)
  with Fmt_i show ?thesis by (simp add: read_i32_range)
next
  case Fmt_f
  with assms show ?thesis
    by (auto simp: read_element_def read_f32_quiet split: sum.splits)
next
  case Fmt_I
  with assms obtain v where "read_u32 bs = Inr (v, rest)" and "x = VInt v"
    by (auto simp: read_element_def split: sum.splits)
  with Fmt_I show ?thesis by (simp add: read_u32_range)
qed

lemma read_n_all:
  assumes "read_n rd n bs = Inr (xs, rest)"
    and "\<And>b x r. rd b = Inr (x, r) \<Longrightarrow> P x"
  shows "list_all P xs \<and> length xs = n"
  using assms(1)
proof (induction n arbitrary: bs xs)
  case 0
  then show ?case by simp
next
  case (Suc n)
  from Suc.prems obtain x r ys where
    x: "rd bs = Inr (x, r)" and ys: "read_n rd n r = Inr (ys, rest)" and xs: "xs = x # ys"
    by (auto split: sum.splits)
  from Suc.IH [OF ys] assms(2) [OF x] xs show ?case by simp
qed

lemma write_element_read:
  assumes "wire_element fmt x"
  shows "\<exists>b. write_element fmt x = Inr b \<and> (\<forall>rest. read_element fmt (b @ rest) = Inr (x, rest))"
proof (cases fmt)
  case Fmt_i
  with assms obtain v where x: "x = VInt v" and r: "in_i32 v"
    by (cases x) simp_all
  then obtain b where b: "write_i32 v = Inr b"
    by (auto simp: write_i32_def in_i32_def)
  from read_i32_write [OF b] have "\<forall>rest. read_i32 (b @ rest) = Inr (v, rest)" by simp
  with Fmt_i x b show ?thesis
    by (simp add: write_element_def read_element_def py_int_def raised_def)
next
  case Fmt_f
  with assms obtain w where x: "x = VFloat w" and "quiet_nan w = w"
    by (cases x) simp_all
  with Fmt_f show ?thesis
    by (simp add: write_element_def read_element_def py_float_def read_f32_write)
next
  case Fmt_I
  with assms obtain v where x: "x = VInt v" and r: "in_u32 v"
    by (cases x) simp_all
  then have "v mod 4294967296 = v" by (simp add: in_u32_def)
  with Fmt_I x show ?thesis
    by (simp add: write_element_def read_element_def py_int_def read_u32_write)
qed

lemma write_string_element_read:
  assumes "x = VStr s" and "length s \<le> 1000000"
  shows "\<exists>b. write_string_element x = Inr b \<and>
             (\<forall>rest. read_string_element (b @ rest) = Inr (reencoded x, rest))"
  using assms
  by (simp add: write_string_element_def read_string_element_def py_str_def
      read_delphi_string_write_any)

lemma reencoded_wire: "wire_string_element x \<Longrightarrow> reencoded x = x"
  by (cases x) (simp_all add: wire_string_def decode_encode_ascii)

lemma emit_three:
  "emit (\<lambda>w. w) [Inr a, Inr b, c] = (case c of Inl e \<Rightarrow> Inl e | Inr z \<Rightarrow> Inr (a @ b @ z))"
  by (simp split: sum.splits)

lemma write_u64_0: "raised (write_u64 0) = Inr (nat_le 8 0)"
  by (simp add: raised_def write_u64_def del: nat_le.simps)

lemma write_u64_1: "raised (write_u64 1) = Inr (nat_le 8 1)"
  by (simp add: raised_def write_u64_def del: nat_le.simps)

lemma read_u64_0: "read_u64 (nat_le 8 0 @ rest) = Inr (0, rest)"
  using read_u64_write [of 0 "nat_le 8 0" rest] by (simp add: write_u64_def del: nat_le.simps)

lemma read_u64_1: "read_u64 (nat_le 8 1 @ rest) = Inr (1, rest)"
  using read_u64_write [of 1 "nat_le 8 1" rest] by (simp add: write_u64_def del: nat_le.simps)

text \<open>An array written by either array writer, read back by the matching reader.\<close>

lemma array_written_read:
  assumes len: "length xs < 4294967296"
    and el: "\<And>x. x \<in> set xs \<Longrightarrow>
               \<exists>b. wr x = Inr b \<and> (\<forall>rest. rd (b @ rest) = Inr (g x, rest))"
  shows "\<exists>enc. (if xs = [] then raised (write_u64 0)
               else emit (\<lambda>w. w) [raised (write_u64 1), Inr (write_u32 (int (length xs))),
                                   emit wr xs]) = Inr enc \<and>
          (\<forall>rest.
             (case read_u64 (enc @ rest) of
                Inl e \<Rightarrow> Inl e
              | Inr (check, r1) \<Rightarrow>
                  if check = 0 then Inr (VList [], r1)
                  else (case read_u32 r1 of
                          Inl e \<Rightarrow> Inl e
                        | Inr (n, r2) \<Rightarrow>
                            (case read_n rd (nat n) r2 of
                               Inl e \<Rightarrow> Inl e
                             | Inr (values, r3) \<Rightarrow> Inr (VList values, r3))))
             = Inr (VList (map g xs), rest))"
proof (cases "xs = []")
  case True
  then show ?thesis
    by (simp add: write_u64_0 read_u64_0 del: nat_le.simps)
next
  case False
  from read_n_emit [of xs wr rd g, OF el] obtain bs where
    bs: "emit wr xs = Inr bs"
    and rbs: "\<And>rest. read_n rd (length xs) (bs @ rest) = Inr (map g xs, rest)"
    by auto
  from len have m: "int (length xs) mod 4294967296 = int (length xs)" by simp
  have r32: "read_u32 (write_u32 (int (length xs)) @ bs @ rest) = Inr (int (length xs), bs @ rest)"
    for rest
    using read_u32_write [of "int (length xs)" "bs @ rest"] m by simp
  let ?enc = "nat_le 8 1 @ write_u32 (int (length xs)) @ bs"
  have "(case read_u64 (?enc @ rest) of
                Inl e \<Rightarrow> Inl e
              | Inr (check, r1) \<Rightarrow>
                  if check = 0 then Inr (VList [], r1)
                  else (case read_u32 r1 of
                          Inl e \<Rightarrow> Inl e
                        | Inr (n, r2) \<Rightarrow>
                            (case read_n rd (nat n) r2 of
                               Inl e \<Rightarrow> Inl e
                             | Inr (values, r3) \<Rightarrow> Inr (VList values, r3))))
             = Inr (VList (map g xs), rest)" for rest
    using read_u64_1 [of "write_u32 (int (length xs)) @ bs @ rest"] r32 [of rest] rbs [of rest]
    by (simp del: nat_le.simps)
  with False bs show ?thesis
    by (simp add: write_u64_1 del: nat_le.simps)
qed

lemma write_extra_array_read:
  assumes "length xs < 4294967296" and "list_all (wire_element fmt) xs"
  shows "\<exists>enc. write_extra_array (VList xs) fmt = Inr enc \<and>
          (\<forall>rest. read_extra_array fmt (enc @ rest) = Inr (VList xs, rest))"
proof -
  have "\<exists>b. write_element fmt x = Inr b \<and>
            (\<forall>rest. read_element fmt (b @ rest) = Inr ((\<lambda>x. x) x, rest))"
    if "x \<in> set xs" for x
    using that assms(2) write_element_read [of fmt x] by (simp add: list_all_iff)
  from array_written_read [of xs "write_element fmt" "read_element fmt" "\<lambda>x. x", OF assms(1) this]
  obtain enc where
    e1: "(if xs = [] then raised (write_u64 0)
          else emit (\<lambda>w. w) [raised (write_u64 1), Inr (write_u32 (int (length xs))),
                              emit (write_element fmt) xs]) = Inr enc"
    and e2: "\<And>rest. read_extra_array fmt (enc @ rest) = Inr (VList (map (\<lambda>x. x) xs), rest)"
    unfolding read_extra_array_def by blast
  have "write_extra_array (VList xs) fmt = Inr enc"
    using e1 by (cases "xs = []")
      (simp_all add: write_extra_array_def py_truth_def del: emit.simps nat_le.simps)
  with e2 show ?thesis by simp
qed

lemma write_extra_string_array_read:
  assumes "length xs < 4294967296"
    and "\<And>x. x \<in> set xs \<Longrightarrow> \<exists>s. x = VStr s \<and> length s \<le> 1000000"
  shows "\<exists>enc. write_extra_string_array (VList xs) = Inr enc \<and>
          (\<forall>rest. read_extra_string_array (enc @ rest) = Inr (VList (map reencoded xs), rest))"
proof -
  have "\<exists>b. write_string_element x = Inr b \<and>
            (\<forall>rest. read_string_element (b @ rest) = Inr (reencoded x, rest))"
    if "x \<in> set xs" for x
    using that assms(2) write_string_element_read by blast
  from array_written_read [of xs write_string_element read_string_element reencoded,
      OF assms(1) this]
  obtain enc where
    e1: "(if xs = [] then raised (write_u64 0)
          else emit (\<lambda>w. w) [raised (write_u64 1), Inr (write_u32 (int (length xs))),
                              emit write_string_element xs]) = Inr enc"
    and e2: "\<And>rest. read_extra_string_array (enc @ rest) = Inr (VList (map reencoded xs), rest)"
    unfolding read_extra_string_array_def by blast
  have "write_extra_string_array (VList xs) = Inr enc"
    using e1 by (cases "xs = []")
      (simp_all add: write_extra_string_array_def py_truth_def del: emit.simps nat_le.simps)
  with e2 show ?thesis by simp
qed

section \<open>Array fields\<close>

lemma read_extra_array_cases:
  assumes "read_extra_array fmt bs = Inr (v, rest)"
  obtains r where "read_u64 bs = Inr (0, r)" and "v = VList []" and "rest = r"
  | check r len r' xs where "read_u64 bs = Inr (check, r)" and "check \<noteq> 0"
      and "read_u32 r = Inr (len, r')"
      and "read_n (read_element fmt) (nat len) r' = Inr (xs, rest)" and "v = VList xs"
  using assms unfolding read_extra_array_def
  by (auto split: sum.splits if_splits)

lemma read_extra_string_array_cases:
  assumes "read_extra_string_array bs = Inr (v, rest)"
  obtains r where "read_u64 bs = Inr (0, r)" and "v = VList []" and "rest = r"
  | check r len r' xs where "read_u64 bs = Inr (check, r)" and "check \<noteq> 0"
      and "read_u32 r = Inr (len, r')"
      and "read_n read_string_element (nat len) r' = Inr (xs, rest)" and "v = VList xs"
  using assms unfolding read_extra_string_array_def
  by (auto split: sum.splits if_splits)

lemma length_decode_ascii [simp]: "length (decode_ascii raw) = length raw"
  by (simp add: decode_ascii_def)

lemma read_delphi_string_length:
  assumes "read_delphi_string bs = Inr (s, rest)"
  shows "length s \<le> 1000000"
proof -
  from assms obtain len r where u: "read_u32 bs = Inr (len, r)" and le: "len \<le> 1000000"
    by (auto simp: read_delphi_string_def split: sum.splits if_splits)
  show ?thesis
  proof (cases "len = 0")
    case True
    with assms u show ?thesis by (simp add: read_delphi_string_def)
  next
    case False
    with assms u le obtain raw where "read_bytes (nat len) r = Inr (raw, rest)"
      and "s = decode_ascii raw"
      by (auto simp: read_delphi_string_def split: sum.splits if_splits)
    then have "length s = nat len" by (simp add: read_bytes_Inr)
    with le show ?thesis by simp
  qed
qed

lemma read_string_element_shape:
  assumes "read_string_element bs = Inr (x, rest)"
  shows "\<exists>s. x = VStr s \<and> length s \<le> 1000000"
  using assms read_delphi_string_length
  by (auto simp: read_string_element_def split: sum.splits)

lemma read_extra_array_wire:
  assumes "read_extra_array fmt bs = Inr (VList xs, rest)"
  shows "length xs < 4294967296 \<and> list_all (wire_element fmt) xs"
  using assms
proof (cases rule: read_extra_array_cases)
  case (1 r)
  then show ?thesis by simp
next
  case (2 check r len r' ys)
  from 2(3) have "in_u32 len" by (rule read_u32_range)
  moreover from read_n_all [OF 2(4), of "wire_element fmt"] read_element_wire
  have "list_all (wire_element fmt) ys \<and> length ys = nat len" by blast
  ultimately show ?thesis using 2(5) by (auto simp: in_u32_def)
qed

lemma read_extra_string_array_shape:
  assumes "read_extra_string_array bs = Inr (VList xs, rest)"
  shows "length xs < 4294967296 \<and> (\<forall>x \<in> set xs. \<exists>s. x = VStr s \<and> length s \<le> 1000000)"
  using assms
proof (cases rule: read_extra_string_array_cases)
  case (1 r)
  then show ?thesis by simp
next
  case (2 check r len r' ys)
  from 2(3) have "in_u32 len" by (rule read_u32_range)
  moreover from read_n_all [OF 2(4), of "\<lambda>x. \<exists>s. x = VStr s \<and> length s \<le> 1000000"]
    read_string_element_shape
  have "list_all (\<lambda>x. \<exists>s. x = VStr s \<and> length s \<le> 1000000) ys \<and> length ys = nat len"
    by blast
  ultimately show ?thesis using 2(5) by (auto simp: in_u32_def list_all_iff)
qed

lemma reencoded_wire_element: "wire_element fmt x \<Longrightarrow> reencoded x = x"
  by (cases x) simp_all

text \<open>The readers and writers of the four array type tags.\<close>

lemma array_tag_cases:
  assumes "dt \<in> {4, 5, 6, 7 :: int}"
  obtains fmt where "dt \<noteq> 7"
      and "\<And>bs. read_field_value dt bs = read_extra_array fmt bs"
      and "\<And>v. write_field_value \<lparr>dtype = dt, fvalue = v\<rparr> = write_extra_array v fmt"
  | "dt = 7"
      and "\<And>bs. read_field_value dt bs = read_extra_string_array bs"
      and "\<And>v. write_field_value \<lparr>dtype = dt, fvalue = v\<rparr> = write_extra_string_array v"
proof -
  from assms consider "dt = 4" | "dt = 5" | "dt = 6" | "dt = 7" by auto
  then show ?thesis
  proof cases
    case 1
    then show ?thesis
      using that(1) [of Fmt_i] by (simp add: read_field_value_def write_field_value_def)
  next
    case 2
    then show ?thesis
      using that(1) [of Fmt_f] by (simp add: read_field_value_def write_field_value_def)
  next
    case 3
    then show ?thesis
      using that(1) [of Fmt_I] by (simp add: read_field_value_def write_field_value_def)
  next
    case 4
    then show ?thesis
      using that(2) by (simp add: read_field_value_def write_field_value_def)
  qed
qed

lemma array_field_reread:
  assumes "dt \<in> {4, 5, 6, 7}" and "read_field_value dt bs = Inr (VList xs, rest)"
  shows "\<exists>enc. write_field_value \<lparr>dtype = dt, fvalue = VList xs\<rparr> = Inr enc \<and>
           (\<forall>tl. read_field_value dt (enc @ tl) = Inr (VList (map reencoded xs), tl)) \<and>
           (dt \<noteq> 7 \<longrightarrow> map reencoded xs = xs)"
  using assms(1)
proof (cases rule: array_tag_cases)
  case (1 fmt)
  from assms(2) 1(2) have "read_extra_array fmt bs = Inr (VList xs, rest)" by simp
  then have w: "length xs < 4294967296" "list_all (wire_element fmt) xs"
    by (simp_all add: read_extra_array_wire)
  then have "\<And>x. x \<in> set xs \<Longrightarrow> reencoded x = x"
    by (auto simp: list_all_iff intro: reencoded_wire_element)
  then have same: "map reencoded xs = xs"
    by (rule map_idI)
  from write_extra_array_read [OF w] 1 same show ?thesis by simp
next
  case 2
  from assms(2) 2(2) have "read_extra_string_array bs = Inr (VList xs, rest)" by simp
  from read_extra_string_array_shape [OF this]
  have "length xs < 4294967296" and "\<And>x. x \<in> set xs \<Longrightarrow> \<exists>s. x = VStr s \<and> length s \<le> 1000000"
    by auto
  from write_extra_string_array_read [OF this] 2 show ?thesis by simp
qed

lemma array_field_marker_zero:
  assumes "dt \<in> {4, 5, 6, 7}" and "read_u64 bs = Inr (0, r)"
  shows "read_field_value dt bs = Inr (VList [], r)"
  using assms(1)
proof (cases rule: array_tag_cases)
  case (1 fmt)
  with assms(2) show ?thesis by (simp add: read_extra_array_def)
next
  case 2
  with assms(2) show ?thesis by (simp add: read_extra_string_array_def)
qed

lemma nat_le_zero: "nat_le k 0 = replicate k 0"
  by (induction k) simp_all

lemma nat_le_8_0: "nat_le 8 0 = replicate 8 0"
  by (rule nat_le_zero)

lemma array_field_write_empty:
  assumes "dt \<in> {4, 5, 6, 7}"
  shows "write_field_value \<lparr>dtype = dt, fvalue = VList []\<rparr> = Inr (replicate 8 0)"
  using assms
proof (cases rule: array_tag_cases)
  case (1 fmt)
  then show ?thesis
    by (simp add: write_extra_array_def py_truth_def write_u64_0 nat_le_8_0 del: nat_le.simps)
next
  case 2
  then show ?thesis
    by (simp add: write_extra_string_array_def py_truth_def write_u64_0 nat_le_8_0
        del: nat_le.simps)
qed

section \<open>Evaluation on concrete buffers\<close>

lemmas read_defs = read_field_value_def read_extra_array_def read_extra_string_array_def
  read_element_def read_string_element_def read_delphi_string_def
  read_u8_def read_i8_def read_u16_def read_u32_def read_i32_def read_f32_def read_u64_def
  read_bytes_def signed_of_def decode_ascii_def

lemmas write_defs = write_field_value_def write_extra_array_def write_extra_string_array_def
  write_element_def write_string_element_def write_delphi_string_def
  write_u8_def write_i8_def write_u16_def write_u32_def write_i32_def write_f32_def
  write_u64_def py_int_def py_float_def py_str_def py_truth_def raised_def encode_ascii_def

lemma nat_le_numeral:
  "nat_le (numeral k) v = of_nat (v mod 256) # nat_le (pred_numeral k) (v div 256)"
  by (metis nat_le.simps(2) numeral_eq_Suc)

lemma read_n_numeral:
  "read_n rd (numeral k) bs =
     (case rd bs of
        Inl e \<Rightarrow> Inl e
      | Inr (x, rest) \<Rightarrow>
          (case read_n rd (pred_numeral k) rest of
             Inl e \<Rightarrow> Inl e
           | Inr (xs, rest') \<Rightarrow> Inr (x # xs, rest')))"
  by (metis read_n.simps(2) numeral_eq_Suc)

lemmas eval_defs = read_defs write_defs nat_le_numeral read_n_numeral

lemma two_int_array_read:
  "read_field_value 4 two_int_array = Inr (VList [VInt 7, VInt (- 1)], [])"
  by (simp add: two_int_array_def eval_defs)

lemma present_empty_read:
  "read_field_value 4 present_empty_array = Inr (VList [], [])"
  by (simp add: present_empty_array_def eval_defs)

lemma write_empty_array:
  "write_field_value \<lparr>dtype = 4, fvalue = VList []\<rparr> = Inr [0, 0, 0, 0, 0, 0, 0, 0]"
  by (simp add: eval_defs)


lemma emit_head:
  assumes "emit (\<lambda>w. w) (Inr a # ws) = Inr enc"
  shows "\<exists>z. enc = a @ z"
  using assms by (auto split: sum.splits)

lemma write_extra_array_VList:
  "write_extra_array (VList xs) fmt =
     (if xs = [] then raised (write_u64 0)
      else emit (\<lambda>w. w) [raised (write_u64 1), Inr (write_u32 (int (length xs))),
                          emit (write_element fmt) xs])"
  by (simp add: write_extra_array_def py_truth_def del: nat_le.simps emit.simps)

lemma write_extra_string_array_VList:
  "write_extra_string_array (VList xs) =
     (if xs = [] then raised (write_u64 0)
      else emit (\<lambda>w. w) [raised (write_u64 1), Inr (write_u32 (int (length xs))),
                          emit write_string_element xs])"
  by (simp add: write_extra_string_array_def py_truth_def del: nat_le.simps emit.simps)

lemma array_field_marker_written:
  assumes "dt \<in> {4, 5, 6, 7}"
    and "write_field_value \<lparr>dtype = dt, fvalue = VList xs\<rparr> = Inr enc"
  shows "take 8 enc = nat_le 8 (if xs = [] then 0 else 1)"
proof -
  have w: "(if xs = [] then raised (write_u64 0)
            else emit (\<lambda>w. w) [raised (write_u64 1), Inr (write_u32 (int (length xs))), c])
           = Inr enc \<Longrightarrow> ?thesis" for c
  proof (cases "xs = []")
    case True
    assume "(if xs = [] then raised (write_u64 0)
            else emit (\<lambda>w. w) [raised (write_u64 1), Inr (write_u32 (int (length xs))), c])
           = Inr enc"
    with True have "enc = nat_le 8 0" by (simp add: write_u64_0 del: nat_le.simps)
    with True show ?thesis by (simp del: nat_le.simps)
  next
    case False
    assume "(if xs = [] then raised (write_u64 0)
            else emit (\<lambda>w. w) [raised (write_u64 1), Inr (write_u32 (int (length xs))), c])
           = Inr enc"
    with False have "emit (\<lambda>w. w) [Inr (nat_le 8 1), Inr (write_u32 (int (length xs))), c]
                     = Inr enc"
      by (simp add: write_u64_1 del: nat_le.simps emit.simps)
    then obtain z where "enc = nat_le 8 1 @ z" using emit_head by blast
    with False show ?thesis by (simp del: nat_le.simps)
  qed
  from assms(1) show ?thesis
  proof (cases rule: array_tag_cases)
    case (1 fmt)
    with assms(2) have "write_extra_array (VList xs) fmt = Inr enc" by simp
    then show ?thesis
      using w [of "emit (write_element fmt) xs"]
      by (simp only: write_extra_array_VList)
  next
    case 2
    with assms(2) have "write_extra_string_array (VList xs) = Inr enc" by simp
    then show ?thesis
      using w [of "emit write_string_element xs"]
      by (simp only: write_extra_string_array_VList)
  qed
qed

lemma array_field_is_list:
  assumes "dt \<in> {4, 5, 6, 7}" and "read_field_value dt bs = Inr (v, rest)"
  shows "\<exists>xs. v = VList xs"
  using assms(1)
proof (cases rule: array_tag_cases)
  case (1 fmt)
  with assms(2) have "read_extra_array fmt bs = Inr (v, rest)" by simp
  then show ?thesis by (cases rule: read_extra_array_cases) simp_all
next
  case 2
  with assms(2) have "read_extra_string_array bs = Inr (v, rest)" by simp
  then show ?thesis by (cases rule: read_extra_string_array_cases) simp_all
qed

lemma read_u64_marker:
  assumes "read_u64 bs = Inr (check, r)"
  shows "take 8 bs = nat_le 8 (nat check)"
proof -
  from assms obtain b where rb: "read_bytes 8 bs = Inr (b, r)" and c: "check = int (le_nat b)"
    by (auto simp: read_u64_def split: sum.splits)
  from rb have "bs = b @ r" and len: "length b = 8" by (simp_all add: read_bytes_Inr)
  then have "take 8 bs = b" by simp
  moreover have "nat_le (length b) (le_nat b) = b" by (rule nat_le_le_nat)
  ultimately show ?thesis using c len by (simp del: nat_le.simps)
qed

section \<open>Reading, then writing\<close>

text \<open>
  What a reader has read, the matching writer writes back as the bytes that were
  read, where these are canonical.
\<close>

lemma read_bytes_le:
  assumes "read_bytes k bs = Inr (b, rest)"
  shows "bs = nat_le k (le_nat b) @ rest \<and> length b = k \<and> le_nat b < 256 ^ k"
proof -
  from read_bytes_Inr [OF assms] have bs: "bs = b @ rest" and len: "length b = k" by simp_all
  from nat_le_le_nat [of b] len have "nat_le k (le_nat b) = b" by simp
  moreover from le_nat_bound [of b] len have "le_nat b < 256 ^ k" by simp
  ultimately show ?thesis using bs len by simp
qed

lemma read_u8_bytes:
  assumes "read_u8 bs = Inr (v, rest)"
  shows "bs = write_u8 v @ rest"
proof -
  from assms obtain b where r: "read_bytes 1 bs = Inr (b, rest)" and v: "v = int (le_nat b)"
    by (auto simp: read_u8_def split: sum.splits)
  from read_bytes_le [OF r] have "bs = nat_le 1 (le_nat b) @ rest" and "le_nat b < 256" by simp_all
  with v show ?thesis by (simp add: write_u8_def del: nat_le.simps)
qed

lemma read_u16_bytes:
  assumes "read_u16 bs = Inr (v, rest)"
  shows "bs = write_u16 v @ rest \<and> 0 \<le> v"
proof -
  from assms obtain b where r: "read_bytes 2 bs = Inr (b, rest)" and v: "v = int (le_nat b)"
    by (auto simp: read_u16_def split: sum.splits)
  from read_bytes_le [OF r] have "bs = nat_le 2 (le_nat b) @ rest" and "le_nat b < 65536"
    by simp_all
  with v show ?thesis by (simp add: write_u16_def del: nat_le.simps)
qed

lemma read_u32_bytes:
  assumes "read_u32 bs = Inr (v, rest)"
  shows "bs = write_u32 v @ rest \<and> bs = nat_le 4 (nat v) @ rest \<and> 0 \<le> v"
proof -
  from assms obtain b where r: "read_bytes 4 bs = Inr (b, rest)" and v: "v = int (le_nat b)"
    by (auto simp: read_u32_def split: sum.splits)
  from read_bytes_le [OF r] have "bs = nat_le 4 (le_nat b) @ rest" and "le_nat b < 4294967296"
    by simp_all
  with v show ?thesis by (simp add: write_u32_def del: nat_le.simps)
qed

lemma read_u64_bytes:
  assumes "read_u64 bs = Inr (v, rest)"
  shows "write_u64 v = Inr (nat_le 8 (nat v)) \<and> bs = nat_le 8 (nat v) @ rest \<and> 0 \<le> v
         \<and> nat v < 256 ^ 8"
proof -
  from assms obtain b where r: "read_bytes 8 bs = Inr (b, rest)" and v: "v = int (le_nat b)"
    by (auto simp: read_u64_def split: sum.splits)
  from read_bytes_le [OF r] have "bs = nat_le 8 (le_nat b) @ rest" and "le_nat b < 256 ^ 8"
    by simp_all
  with v show ?thesis by (simp add: write_u64_def del: nat_le.simps)
qed

lemma signed_of_1_range: "u < 256 \<Longrightarrow> - 128 \<le> signed_of (Suc 0) u \<and> signed_of (Suc 0) u < 128"
  by (simp add: signed_of_def)

lemma signed_of_1_back: "u < 256 \<Longrightarrow> nat (signed_of (Suc 0) u mod 256) = u"
proof (cases "128 \<le> u")
  case True
  assume "u < 256"
  with True have "signed_of (Suc 0) u = int u - 256" by (simp add: signed_of_def)
  moreover have "(int u - 256) mod 256 = int u" using True \<open>u < 256\<close> by (simp add: int_mod_neg)
  ultimately show ?thesis by simp
next
  case False
  then show ?thesis by (simp add: signed_of_def)
qed

lemma read_i8_bytes:
  assumes "read_i8 bs = Inr (v, rest)"
  shows "\<exists>b. write_i8 v = Inr b \<and> bs = b @ rest"
proof -
  from assms obtain b where r: "read_bytes 1 bs = Inr (b, rest)"
    and v: "v = signed_of 1 (le_nat b)"
    by (auto simp: read_i8_def split: sum.splits)
  from read_bytes_le [OF r] have bs: "bs = nat_le 1 (le_nat b) @ rest" and lt: "le_nat b < 256"
    by simp_all
  from signed_of_1_range [OF lt] signed_of_1_back [OF lt] v bs show ?thesis
    by (simp add: write_i8_def del: nat_le.simps)
qed

lemma read_i32_bytes:
  assumes "read_i32 bs = Inr (v, rest)"
  shows "\<exists>b. write_i32 v = Inr b \<and> bs = b @ rest"
proof -
  from assms obtain b where r: "read_bytes 4 bs = Inr (b, rest)"
    and v: "v = signed_of 4 (le_nat b)"
    by (auto simp: read_i32_def split: sum.splits)
  from read_bytes_le [OF r] have bs: "bs = nat_le 4 (le_nat b) @ rest"
    and lt: "le_nat b < 4294967296"
    by simp_all
  from signed_of_4_range [OF lt] signed_of_4_back [OF lt] v bs show ?thesis
    by (simp add: write_i32_def del: nat_le.simps)
qed

lemma unat_of_nat_f32: "n < 4294967296 \<Longrightarrow> unat (of_nat n :: f32) = n"
  by (simp add: unat_of_nat)

lemma read_f32_bytes:
  assumes "read_f32 bs = Inr (w, rest)" and "canonical_f32 bs"
  shows "bs = write_f32 w @ rest"
proof -
  from assms(1) obtain b where r: "read_bytes 4 bs = Inr (b, rest)"
    and w: "w = quiet_nan (of_nat (le_nat b))"
    by (auto simp: read_f32_def split: sum.splits)
  from read_bytes_Inr [OF r] have "take 4 bs = b" by simp
  with assms(2) have q: "quiet_nan (of_nat (le_nat b)) = (of_nat (le_nat b) :: f32)"
    by (simp add: canonical_f32_def)
  from read_bytes_le [OF r] have bs: "bs = nat_le 4 (le_nat b) @ rest"
    and lt: "le_nat b < 4294967296"
    by simp_all
  from w q have "write_f32 w = nat_le 4 (unat (of_nat (le_nat b) :: f32))"
    by (simp add: write_f32_def del: nat_le.simps)
  with unat_of_nat_f32 [OF lt] bs show ?thesis by simp
qed

lemma encode_decode_ascii:
  "list_all (\<lambda>b. unat b < 128) raw \<Longrightarrow> encode_ascii (decode_ascii raw) = raw"
  by (induction raw) (simp_all add: encode_ascii_def decode_ascii_def)

lemma read_delphi_string_bytes:
  assumes "read_delphi_string bs = Inr (s, rest)" and "canonical_string bs"
  shows "bs = write_delphi_string s @ rest"
proof -
  from assms(1) obtain len r where u: "read_u32 bs = Inr (len, r)" and le: "len \<le> 1000000"
    by (auto simp: read_delphi_string_def split: sum.splits if_splits)
  from read_u32_bytes [OF u] have bs: "bs = write_u32 len @ r" and l0: "0 \<le> len" by simp_all
  show ?thesis
  proof (cases "len = 0")
    case True
    with assms(1) u have "s = []" and "rest = r" by (simp_all add: read_delphi_string_def)
    with bs True show ?thesis by (simp add: write_delphi_string_def encode_ascii_def)
  next
    case False
    with assms(1) u le obtain raw where rb: "read_bytes (nat len) r = Inr (raw, rest)"
      and s: "s = decode_ascii raw"
      by (auto simp: read_delphi_string_def split: sum.splits if_splits)
    from read_bytes_Inr [OF rb] have r: "r = raw @ rest" and lr: "length raw = nat len"
      by simp_all
    then have "take (nat len) r = raw" by simp
    with assms(2) u have "list_all (\<lambda>b. unat b < 128) raw"
      by (simp add: canonical_string_def)
    then have "encode_ascii (decode_ascii raw) = raw" by (rule encode_decode_ascii)
    with s lr l0 bs r show ?thesis
      by (simp add: write_delphi_string_def Let_def)
  qed
qed

lemma read_n_bytes:
  assumes each: "\<And>bs x rest. rd bs = Inr (x, rest) \<Longrightarrow> ok bs \<Longrightarrow>
                   \<exists>b. wr x = Inr b \<and> bs = b @ rest"
    and "read_n rd n bs = Inr (xs, rest)" and "each_item ok rd n bs"
  shows "\<exists>b. emit wr xs = Inr b \<and> bs = b @ rest"
  using assms(2,3)
proof (induction n arbitrary: bs xs)
  case 0
  then show ?case by simp
next
  case (Suc n)
  from Suc.prems(1) obtain x r ys where
    x: "rd bs = Inr (x, r)" and ys: "read_n rd n r = Inr (ys, rest)" and xs: "xs = x # ys"
    by (auto split: sum.splits)
  from Suc.prems(2) x have ok: "ok bs" and rest_ok: "each_item ok rd n r" by simp_all
  from each [OF x ok] obtain b where b: "wr x = Inr b" and bs: "bs = b @ r" by blast
  from Suc.IH [OF ys rest_ok] obtain b' where b': "emit wr ys = Inr b'" and r: "r = b' @ rest"
    by blast
  from b b' bs r xs show ?case by simp
qed

lemma read_element_bytes:
  assumes "read_element fmt bs = Inr (x, rest)" and "fmt = Fmt_f \<longrightarrow> canonical_f32 bs"
  shows "\<exists>b. write_element fmt x = Inr b \<and> bs = b @ rest"
proof (cases fmt)
  case Fmt_i
  with assms(1) obtain v where r: "read_i32 bs = Inr (v, rest)" and x: "x = VInt v"
    by (auto simp: read_element_def split: sum.splits)
  from read_i32_bytes [OF r] Fmt_i x show ?thesis
    by (auto simp: write_element_def py_int_def raised_def)
next
  case Fmt_f
  with assms(1) obtain w where r: "read_f32 bs = Inr (w, rest)" and x: "x = VFloat w"
    by (auto simp: read_element_def split: sum.splits)
  from Fmt_f assms(2) have "canonical_f32 bs" by simp
  from read_f32_bytes [OF r this] Fmt_f x show ?thesis
    by (simp add: write_element_def py_float_def)
next
  case Fmt_I
  with assms(1) obtain v where r: "read_u32 bs = Inr (v, rest)" and x: "x = VInt v"
    by (auto simp: read_element_def split: sum.splits)
  from read_u32_bytes [OF r] Fmt_I x show ?thesis
    by (simp add: write_element_def py_int_def)
qed

lemma read_string_element_bytes:
  assumes "read_string_element bs = Inr (x, rest)" and "canonical_string bs"
  shows "\<exists>b. write_string_element x = Inr b \<and> bs = b @ rest"
proof -
  from assms(1) obtain s where r: "read_delphi_string bs = Inr (s, rest)" and x: "x = VStr s"
    by (auto simp: read_string_element_def split: sum.splits)
  from read_delphi_string_bytes [OF r assms(2)] x show ?thesis
    by (simp add: write_string_element_def py_str_def)
qed

lemma element_reader_bytes:
  assumes "dt \<in> {4, 5, 6, 7}"
    and "element_reader dt bs = Inr (x, rest)" and "canonical_element dt bs"
  shows "\<exists>b. element_writer dt x = Inr b \<and> bs = b @ rest"
proof -
  from assms(1) consider "dt = 4" | "dt = 5" | "dt = 6" | "dt = 7" by auto
  then show ?thesis
  proof cases
    case 1
    with assms(2) have "read_element Fmt_i bs = Inr (x, rest)" by (simp add: element_reader_def)
    from read_element_bytes [OF this] 1 show ?thesis by (simp add: element_writer_def)
  next
    case 2
    with assms(2,3) have "read_element Fmt_f bs = Inr (x, rest)" and "canonical_f32 bs"
      by (simp_all add: element_reader_def canonical_element_def)
    from read_element_bytes [OF this(1)] this(2) 2 show ?thesis
      by (simp add: element_writer_def)
  next
    case 3
    with assms(2) have "read_element Fmt_I bs = Inr (x, rest)" by (simp add: element_reader_def)
    from read_element_bytes [OF this] 3 show ?thesis by (simp add: element_writer_def)
  next
    case 4
    with assms(2,3) have "read_string_element bs = Inr (x, rest)" and "canonical_string bs"
      by (simp_all add: element_reader_def canonical_element_def)
    from read_string_element_bytes [OF this] 4 show ?thesis by (simp add: element_writer_def)
  qed
qed

text \<open>The reader and the writer of an array field, by its element reader and writer.\<close>

lemma read_array_field:
  assumes "dt \<in> {4, 5, 6, 7}"
  shows "read_field_value dt bs =
     (case read_u64 bs of
        Inl e \<Rightarrow> Inl e
      | Inr (check, rest) \<Rightarrow>
          if check = 0 then Inr (VList [], rest)
          else (case read_u32 rest of
                  Inl e \<Rightarrow> Inl e
                | Inr (len, rest') \<Rightarrow>
                    (case read_n (element_reader dt) (nat len) rest' of
                       Inl e \<Rightarrow> Inl e
                     | Inr (values, rest'') \<Rightarrow> Inr (VList values, rest''))))"
proof -
  from assms consider "dt = 4" | "dt = 5" | "dt = 6" | "dt = 7" by auto
  then show ?thesis
  proof cases
    case 1
    then have er: "element_reader dt = read_element Fmt_i" by (simp add: element_reader_def)
    show ?thesis unfolding er using 1 by (simp add: read_field_value_def read_extra_array_def)
  next
    case 2
    then have er: "element_reader dt = read_element Fmt_f" by (simp add: element_reader_def)
    show ?thesis unfolding er using 2 by (simp add: read_field_value_def read_extra_array_def)
  next
    case 3
    then have er: "element_reader dt = read_element Fmt_I" by (simp add: element_reader_def)
    show ?thesis unfolding er using 3 by (simp add: read_field_value_def read_extra_array_def)
  next
    case 4
    then have er: "element_reader dt = read_string_element" by (simp add: element_reader_def)
    show ?thesis unfolding er using 4
      by (simp add: read_field_value_def read_extra_string_array_def)
  qed
qed

lemma write_array_field:
  assumes "dt \<in> {4, 5, 6, 7}"
  shows "write_field_value \<lparr>dtype = dt, fvalue = VList xs\<rparr> =
     (if xs = [] then Inr (nat_le 8 0)
      else (case emit (element_writer dt) xs of
              Inl e \<Rightarrow> Inl e
            | Inr eb \<Rightarrow> Inr (nat_le 8 1 @ write_u32 (int (length xs)) @ eb)))"
proof -
  have arr: "(if xs = [] then raised (write_u64 0)
              else emit (\<lambda>w. w) [raised (write_u64 1), Inr (write_u32 (int (length xs))),
                     emit wr xs]) =
             (if xs = [] then Inr (nat_le 8 0)
              else (case emit wr xs of
                      Inl e \<Rightarrow> Inl e
                    | Inr eb \<Rightarrow> Inr (nat_le 8 1 @ write_u32 (int (length xs)) @ eb)))"
    for wr :: "pyvalue \<Rightarrow> werror + bytes"
    by (simp add: write_u64_0 write_u64_1 emit_three del: nat_le.simps emit.simps
        split: sum.splits)
  from assms consider "dt = 4" | "dt = 5" | "dt = 6" | "dt = 7" by auto
  then show ?thesis
  proof cases
    case 1
    then have ew: "element_writer dt = write_element Fmt_i" by (simp add: element_writer_def)
    show ?thesis unfolding ew using 1 arr [of "write_element Fmt_i"]
      by (simp add: write_field_value_def write_extra_array_VList del: nat_le.simps emit.simps)
  next
    case 2
    then have ew: "element_writer dt = write_element Fmt_f" by (simp add: element_writer_def)
    show ?thesis unfolding ew using 2 arr [of "write_element Fmt_f"]
      by (simp add: write_field_value_def write_extra_array_VList del: nat_le.simps emit.simps)
  next
    case 3
    then have ew: "element_writer dt = write_element Fmt_I" by (simp add: element_writer_def)
    show ?thesis unfolding ew using 3 arr [of "write_element Fmt_I"]
      by (simp add: write_field_value_def write_extra_array_VList del: nat_le.simps emit.simps)
  next
    case 4
    then have ew: "element_writer dt = write_string_element" by (simp add: element_writer_def)
    show ?thesis unfolding ew using 4 arr [of write_string_element]
      by (simp add: write_field_value_def write_extra_string_array_VList
          del: nat_le.simps emit.simps)
  qed
qed

lemma read_bytes_prefix:
  assumes "read_bytes k bs = Inr (b, rest)"
  shows "bs = b @ rest \<and> (\<forall>t. read_bytes k (b @ t) = Inr (b, t))"
  using read_bytes_Inr [OF assms] by (simp add: read_bytes_append)

lemma read_u32_prefix:
  assumes "read_u32 bs = Inr (v, rest)"
  shows "\<exists>b. bs = b @ rest \<and> (\<forall>t. read_u32 (b @ t) = Inr (v, t))"
proof -
  from assms obtain b where r: "read_bytes 4 bs = Inr (b, rest)" and v: "v = int (le_nat b)"
    by (auto simp: read_u32_def split: sum.splits)
  from read_bytes_prefix [OF r] v show ?thesis by (auto simp: read_u32_def)
qed

lemma read_i32_prefix:
  assumes "read_i32 bs = Inr (v, rest)"
  shows "\<exists>b. bs = b @ rest \<and> (\<forall>t. read_i32 (b @ t) = Inr (v, t))"
proof -
  from assms obtain b where r: "read_bytes 4 bs = Inr (b, rest)"
    and v: "v = signed_of 4 (le_nat b)"
    by (auto simp: read_i32_def split: sum.splits)
  from read_bytes_prefix [OF r] v show ?thesis by (auto simp: read_i32_def)
qed

lemma read_f32_prefix:
  assumes "read_f32 bs = Inr (v, rest)"
  shows "\<exists>b. bs = b @ rest \<and> (\<forall>t. read_f32 (b @ t) = Inr (v, t))"
proof -
  from assms obtain b where r: "read_bytes 4 bs = Inr (b, rest)"
    and v: "v = quiet_nan (of_nat (le_nat b))"
    by (auto simp: read_f32_def split: sum.splits)
  from read_bytes_prefix [OF r] v show ?thesis by (auto simp: read_f32_def)
qed

lemma read_delphi_string_prefix:
  assumes "read_delphi_string bs = Inr (s, rest)"
  shows "\<exists>b. bs = b @ rest \<and> (\<forall>t. read_delphi_string (b @ t) = Inr (s, t))"
proof -
  from assms obtain len r where u: "read_u32 bs = Inr (len, r)" and le: "len \<le> 1000000"
    by (auto simp: read_delphi_string_def split: sum.splits if_splits)
  from read_u32_prefix [OF u] obtain b4 where bs: "bs = b4 @ r"
    and u': "\<And>t. read_u32 (b4 @ t) = Inr (len, t)"
    by blast
  show ?thesis
  proof (cases "len = 0")
    case True
    with assms u have "s = []" and "rest = r" by (simp_all add: read_delphi_string_def)
    with bs u' True show ?thesis by (auto simp: read_delphi_string_def)
  next
    case False
    with assms u le obtain raw where rb: "read_bytes (nat len) r = Inr (raw, rest)"
      and s: "s = decode_ascii raw"
      by (auto simp: read_delphi_string_def split: sum.splits if_splits)
    from read_bytes_prefix [OF rb] have r: "r = raw @ rest"
      and rb': "\<And>t. read_bytes (nat len) (raw @ t) = Inr (raw, t)"
      by simp_all
    have "read_delphi_string ((b4 @ raw) @ t) = Inr (s, t)" for t
      using u' [of "raw @ t"] rb' [of t] le False s by (simp add: read_delphi_string_def)
    moreover have "bs = (b4 @ raw) @ rest" using bs r by simp
    ultimately show ?thesis by blast
  qed
qed

lemma element_reader_prefix:
  assumes "dt \<in> {4, 5, 6, 7}" and "element_reader dt bs = Inr (x, rest)"
  shows "\<exists>b. bs = b @ rest \<and> (\<forall>t. element_reader dt (b @ t) = Inr (x, t))"
proof -
  from assms(1) consider "dt = 4" | "dt = 5" | "dt = 6" | "dt = 7" by auto
  then show ?thesis
  proof cases
    case 1
    with assms(2) obtain v where "read_i32 bs = Inr (v, rest)" and x: "x = VInt v"
      by (auto simp: element_reader_def read_element_def split: sum.splits)
    from read_i32_prefix [OF this(1)] x 1 show ?thesis
      by (auto simp: element_reader_def read_element_def)
  next
    case 2
    with assms(2) obtain v where "read_f32 bs = Inr (v, rest)" and x: "x = VFloat v"
      by (auto simp: element_reader_def read_element_def split: sum.splits)
    from read_f32_prefix [OF this(1)] x 2 show ?thesis
      by (auto simp: element_reader_def read_element_def)
  next
    case 3
    with assms(2) obtain v where "read_u32 bs = Inr (v, rest)" and x: "x = VInt v"
      by (auto simp: element_reader_def read_element_def split: sum.splits)
    from read_u32_prefix [OF this(1)] x 3 show ?thesis
      by (auto simp: element_reader_def read_element_def)
  next
    case 4
    with assms(2) obtain v where "read_delphi_string bs = Inr (v, rest)" and x: "x = VStr v"
      by (auto simp: element_reader_def read_string_element_def split: sum.splits)
    from read_delphi_string_prefix [OF this(1)] x 4 show ?thesis
      by (auto simp: element_reader_def read_string_element_def)
  qed
qed

lemma element_reader_writable:
  assumes "dt \<in> {4, 5, 6, 7}" and "element_reader dt bs = Inr (x, rest)"
  shows "\<exists>c. element_writer dt x = Inr c"
proof -
  from assms(1) consider "dt = 4" | "dt = 5" | "dt = 6" | "dt = 7" by auto
  then show ?thesis
  proof cases
    case 1
    with assms(2) have "read_element Fmt_i bs = Inr (x, rest)" by (simp add: element_reader_def)
    from write_element_read [OF read_element_wire [OF this]] 1 show ?thesis
      by (auto simp: element_writer_def)
  next
    case 2
    with assms(2) have "read_element Fmt_f bs = Inr (x, rest)" by (simp add: element_reader_def)
    from write_element_read [OF read_element_wire [OF this]] 2 show ?thesis
      by (auto simp: element_writer_def)
  next
    case 3
    with assms(2) have "read_element Fmt_I bs = Inr (x, rest)" by (simp add: element_reader_def)
    from write_element_read [OF read_element_wire [OF this]] 3 show ?thesis
      by (auto simp: element_writer_def)
  next
    case 4
    with assms(2) have "read_string_element bs = Inr (x, rest)" by (simp add: element_reader_def)
    from read_string_element_shape [OF this] obtain s where "x = VStr s" by blast
    with 4 show ?thesis by (simp add: element_writer_def write_string_element_def py_str_def)
  qed
qed

lemma read_n_in_order:
  assumes pre: "\<And>bs x rest. rd bs = Inr (x, rest) \<Longrightarrow>
                  \<exists>b. bs = b @ rest \<and> (\<forall>t. rd (b @ t) = Inr (x, t))"
    and "read_n rd n bs = Inr (xs, rest)"
  shows "\<exists>region. bs = region @ rest \<and> decodes_in_order rd region xs \<and> length xs = n"
  using assms(2)
proof (induction n arbitrary: bs xs)
  case 0
  then show ?case by (simp add: decodes_in_order_def)
next
  case (Suc n)
  from Suc.prems obtain x r ys where
    x: "rd bs = Inr (x, r)" and ys: "read_n rd n r = Inr (ys, rest)" and xs: "xs = x # ys"
    by (auto split: sum.splits)
  from pre [OF x] obtain b where bs: "bs = b @ r" and b: "rd (b @ []) = Inr (x, [])"
    by blast
  from Suc.IH [OF ys] obtain region chunks where r: "r = region @ rest"
    and reg: "region = concat chunks"
    and all: "list_all2 (\<lambda>c x. rd c = Inr (x, [])) chunks ys" and len: "length ys = n"
    by (auto simp: decodes_in_order_def)
  from b all have "list_all2 (\<lambda>c x. rd c = Inr (x, [])) (b # chunks) (x # ys)" by simp
  moreover from reg have "b @ region = concat (b # chunks)" by simp
  ultimately have "decodes_in_order rd (b @ region) (x # ys)"
    unfolding decodes_in_order_def by blast
  with bs r xs len show ?case by auto
qed

lemma emit_in_order:
  assumes "\<And>x. x \<in> set xs \<Longrightarrow> \<exists>c. wr x = Inr c"
  shows "\<exists>eb. emit wr xs = Inr eb \<and> encodes_in_order wr xs eb"
  using assms
proof (induction xs)
  case Nil
  show ?case by (simp add: encodes_in_order_def)
next
  case (Cons x xs)
  from Cons.prems [of x] obtain c where c: "wr x = Inr c" by auto
  from Cons.IH Cons.prems obtain eb chunks where eb: "emit wr xs = Inr eb"
    and reg: "eb = concat chunks" and all: "list_all2 (\<lambda>x c. wr x = Inr c) xs chunks"
    by (auto simp: encodes_in_order_def)
  from c all have "list_all2 (\<lambda>x c. wr x = Inr c) (x # xs) (c # chunks)" by simp
  moreover from reg have "c @ eb = concat (c # chunks)" by simp
  ultimately have "encodes_in_order wr (x # xs) (c @ eb)"
    unfolding encodes_in_order_def by blast
  with c eb show ?case by simp
qed

lemma read_n_elements:
  assumes "read_n rd n bs = Inr (xs, rest)" and "x \<in> set xs"
  shows "\<exists>b r. rd b = Inr (x, r)"
  using assms
proof (induction n arbitrary: bs xs)
  case 0
  then show ?case by simp
next
  case (Suc n)
  from Suc.prems(1) obtain y r ys where
    y: "rd bs = Inr (y, r)" and ys: "read_n rd n r = Inr (ys, rest)" and xs: "xs = y # ys"
    by (auto split: sum.splits)
  from Suc.prems(2) xs have "x = y \<or> x \<in> set ys" by simp
  then show ?case
  proof
    assume "x = y" with y show ?thesis by blast
  next
    assume "x \<in> set ys" from Suc.IH [OF ys this] show ?thesis .
  qed
qed

text \<open>What the reader accepted as an array field, and what the writer makes of it.\<close>

lemma array_field_decoded:
  assumes dt: "dt \<in> {4, 5, 6, 7}"
    and rd: "read_field_value dt bs = Inr (v, rest)"
    and mk: "read_u64 bs = Inr (check, r)"
  shows "(check = 0 \<longrightarrow> v = VList [] \<and> rest = r) \<and>
         (check \<noteq> 0 \<longrightarrow>
            (\<exists>n r' xs. read_u32 r = Inr (n, r') \<and>
               read_n (element_reader dt) (nat n) r' = Inr (xs, rest) \<and> v = VList xs))"
  using rd mk unfolding read_array_field [OF dt]
  by (auto split: sum.splits if_splits)

lemma array_field_elements:
  assumes dt: "dt \<in> {4, 5, 6, 7}"
    and rn: "read_n (element_reader dt) n r' = Inr (xs, rest)"
  shows "\<exists>region eb. r' = region @ rest \<and> length xs = n \<and>
           decodes_in_order (element_reader dt) region xs \<and>
           emit (element_writer dt) xs = Inr eb \<and>
           encodes_in_order (element_writer dt) xs eb"
proof -
  from read_n_in_order [OF element_reader_prefix [OF dt] rn] obtain region where
    a: "r' = region @ rest" "decodes_in_order (element_reader dt) region xs" "length xs = n"
    by blast
  have "\<exists>c. element_writer dt x = Inr c" if "x \<in> set xs" for x
  proof -
    from read_n_elements [OF rn that] obtain b r where "element_reader dt b = Inr (x, r)"
      by blast
    from element_reader_writable [OF dt this] show ?thesis .
  qed
  from emit_in_order [of xs "element_writer dt", OF this] a show ?thesis by blast
qed

lemma nat_le_inj:
  assumes "nat_le k a = nat_le k b" and "a < 256 ^ k" and "b < 256 ^ k"
  shows "a = b"
proof -
  from assms(1) have "le_nat (nat_le k a) = le_nat (nat_le k b)" by (simp del: nat_le.simps)
  with assms(2,3) show ?thesis by (simp add: le_nat_nat_le_small del: nat_le.simps)
qed

lemma write_u32_count:
  assumes "read_u32 r = Inr (n, r')"
  shows "write_u32 (int (nat n)) = nat_le 4 (nat n) \<and> r = nat_le 4 (nat n) @ r'"
proof -
  from read_u32_range [OF assms] have "0 \<le> n" "n < 4294967296" by (simp_all add: in_u32_def)
  then have "write_u32 (int (nat n)) = nat_le 4 (nat n)"
    by (simp add: write_u32_def del: nat_le.simps)
  with read_u32_bytes [OF assms] show ?thesis by simp
qed

text \<open>An accepted array field whose marker is not zero, and its re-encoding.\<close>

lemma array_field_present:
  assumes dt: "dt \<in> {4, 5, 6, 7}"
    and rd: "read_field_value dt bs = Inr (v, rest)"
    and mk: "read_u64 bs = Inr (check, r)" and nz: "check \<noteq> 0"
    and cnt: "read_u32 r = Inr (n, r')"
  shows "\<exists>xs region region'.
           v = VList xs \<and> length xs = nat n \<and>
           bs = nat_le 8 (nat check) @ nat_le 4 (nat n) @ region @ rest \<and>
           decodes_in_order (element_reader dt) region xs \<and>
           emit (element_writer dt) xs = Inr region' \<and>
           encodes_in_order (element_writer dt) xs region' \<and>
           (each_item (canonical_element dt) (element_reader dt) (nat n) r' \<longrightarrow>
              region' = region)"
proof -
  from array_field_decoded [OF dt rd mk] nz cnt obtain xs where
    rn: "read_n (element_reader dt) (nat n) r' = Inr (xs, rest)" and v: "v = VList xs"
    by auto
  from array_field_elements [OF dt rn] obtain region eb where
    r': "r' = region @ rest" and len: "length xs = nat n"
    and dec: "decodes_in_order (element_reader dt) region xs"
    and eb: "emit (element_writer dt) xs = Inr eb"
    and enc: "encodes_in_order (element_writer dt) xs eb"
    by blast
  from read_u64_bytes [OF mk] have b1: "bs = nat_le 8 (nat check) @ r" by simp
  from write_u32_count [OF cnt] have b2: "r = nat_le 4 (nat n) @ r'" by simp
  have "eb = region" if "each_item (canonical_element dt) (element_reader dt) (nat n) r'"
  proof -
    from read_n_bytes [of "element_reader dt" "canonical_element dt" "element_writer dt",
        OF element_reader_bytes [OF dt] rn that]
    obtain b where "emit (element_writer dt) xs = Inr b" and "r' = b @ rest" by blast
    with eb r' show ?thesis by simp
  qed
  with v len b1 b2 r' dec eb enc show ?thesis by auto
qed

lemma array_field_written:
  assumes dt: "dt \<in> {4, 5, 6, 7}" and "xs \<noteq> []" and "length xs = nat n"
    and cnt: "read_u32 r = Inr (n, r')" and eb: "emit (element_writer dt) xs = Inr eb"
  shows "write_field_value \<lparr>dtype = dt, fvalue = VList xs\<rparr>
           = Inr (nat_le 8 1 @ nat_le 4 (nat n) @ eb)"
  using write_array_field [OF dt, of xs] assms(2,3) eb write_u32_count [OF cnt]
  by (simp del: nat_le.simps)

section \<open>Array fields: presence, count and order\<close>

text \<open>
  C3. For each of the four array type tags: decoding an array field whose presence
  marker is 0 yields the empty sequence, and encoding the empty sequence emits
  exactly eight zero bytes. An accepted array field whose marker is not 0 and whose
  count \<open>n\<close> is not 0 consists of the marker, the four bytes of \<open>n\<close>, a region and
  the rest; it decodes to a sequence of exactly \<open>n\<close> elements, which the region
  holds in order; the encoder writes it as marker 1, the same four bytes of \<open>n\<close>
  and a region that holds the encodings of the same elements in the same order;
  and where the elements are canonical that region is the original one, byte for
  byte.
\<close>

theorem array_presence_law:
  assumes dt: "dt \<in> {4, 5, 6, 7}"
  shows "(\<forall>r. read_u64 bs = Inr (0, r) \<longrightarrow> read_field_value dt bs = Inr (VList [], r)) \<and>
         write_field_value \<lparr>dtype = dt, fvalue = VList []\<rparr> = Inr (replicate 8 0) \<and>
         (\<forall>check r n r' v rest.
            read_field_value dt bs = Inr (v, rest) \<and> read_u64 bs = Inr (check, r) \<and>
            check \<noteq> 0 \<and> read_u32 r = Inr (n, r') \<and> n \<noteq> 0 \<longrightarrow>
            (\<exists>xs region region'.
               v = VList xs \<and> length xs = nat n \<and>
               bs = nat_le 8 (nat check) @ nat_le 4 (nat n) @ region @ rest \<and>
               decodes_in_order (element_reader dt) region xs \<and>
               write_field_value \<lparr>dtype = dt, fvalue = v\<rparr>
                 = Inr (nat_le 8 1 @ nat_le 4 (nat n) @ region') \<and>
               encodes_in_order (element_writer dt) xs region' \<and>
               (each_item (canonical_element dt) (element_reader dt) (nat n) r' \<longrightarrow>
                  region' = region) \<and>
               (\<forall>tl. read_field_value dt (nat_le 8 1 @ nat_le 4 (nat n) @ region' @ tl)
                       = Inr (VList (map reencoded xs), tl))))"
proof (intro conjI allI impI)
  fix r assume "read_u64 bs = Inr (0, r)"
  with array_field_marker_zero [OF dt] show "read_field_value dt bs = Inr (VList [], r)" .
next
  show "write_field_value \<lparr>dtype = dt, fvalue = VList []\<rparr> = Inr (replicate 8 0)"
    by (rule array_field_write_empty [OF dt])
next
  fix check r n r' v rest
  assume a: "read_field_value dt bs = Inr (v, rest) \<and> read_u64 bs = Inr (check, r) \<and>
            check \<noteq> 0 \<and> read_u32 r = Inr (n, r') \<and> n \<noteq> 0"
  then have rd: "read_field_value dt bs = Inr (v, rest)" and mk: "read_u64 bs = Inr (check, r)"
    and nz: "check \<noteq> 0" and cnt: "read_u32 r = Inr (n, r')" and n: "n \<noteq> 0"
    by simp_all
  from array_field_present [OF dt rd mk nz cnt] obtain xs region region' where
    v: "v = VList xs" and len: "length xs = nat n"
    and bs: "bs = nat_le 8 (nat check) @ nat_le 4 (nat n) @ region @ rest"
    and dec: "decodes_in_order (element_reader dt) region xs"
    and eb: "emit (element_writer dt) xs = Inr region'"
    and enc: "encodes_in_order (element_writer dt) xs region'"
    and can: "each_item (canonical_element dt) (element_reader dt) (nat n) r' \<longrightarrow>
              region' = region"
    by blast
  from read_u32_range [OF cnt] n have "nat n \<noteq> 0" by (simp add: in_u32_def)
  with len have "xs \<noteq> []" by auto
  from array_field_written [OF dt this len cnt eb] v
  have w: "write_field_value \<lparr>dtype = dt, fvalue = v\<rparr>
          = Inr (nat_le 8 1 @ nat_le 4 (nat n) @ region')"
    by simp
  from rd v have "read_field_value dt bs = Inr (VList xs, rest)" by simp
  from array_field_reread [OF dt this] obtain enc' where
    w': "write_field_value \<lparr>dtype = dt, fvalue = VList xs\<rparr> = Inr enc'"
    and re: "\<And>tl. read_field_value dt (enc' @ tl) = Inr (VList (map reencoded xs), tl)"
    by blast
  from w w' v have "enc' = nat_le 8 1 @ nat_le 4 (nat n) @ region'" by simp
  with re have again: "\<forall>tl. read_field_value dt (nat_le 8 1 @ nat_le 4 (nat n) @ region' @ tl)
                       = Inr (VList (map reencoded xs), tl)"
    by (simp del: nat_le.simps)
  from v len bs dec w enc can again
  show "\<exists>xs region region'.
               v = VList xs \<and> length xs = nat n \<and>
               bs = nat_le 8 (nat check) @ nat_le 4 (nat n) @ region @ rest \<and>
               decodes_in_order (element_reader dt) region xs \<and>
               write_field_value \<lparr>dtype = dt, fvalue = v\<rparr>
                 = Inr (nat_le 8 1 @ nat_le 4 (nat n) @ region') \<and>
               encodes_in_order (element_writer dt) xs region' \<and>
               (each_item (canonical_element dt) (element_reader dt) (nat n) r' \<longrightarrow>
                  region' = region) \<and>
               (\<forall>tl. read_field_value dt (nat_le 8 1 @ nat_le 4 (nat n) @ region' @ tl)
                       = Inr (VList (map reencoded xs), tl))"
    by blast
qed

lemma two_int_array_marker: "read_u64 two_int_array = Inr (1, drop 8 two_int_array)"
  by (simp add: two_int_array_def eval_defs)

lemma two_int_array_count:
  "read_u32 (drop 8 two_int_array) = Inr (2, drop 12 two_int_array)"
  by (simp add: two_int_array_def eval_defs)

lemma two_int_array_elements:
  "each_item (canonical_element 4) (element_reader 4) (nat 2) (drop 12 two_int_array)"
  by (simp add: two_int_array_def canonical_element_def element_reader_def eval_defs
      numeral_2_eq_2)

theorem array_presence_law_witness:
  "read_field_value 4 two_int_array = Inr (VList [VInt 7, VInt (- 1)], []) \<and>
   (\<exists>region. two_int_array = nat_le 8 1 @ nat_le 4 2 @ region \<and>
      decodes_in_order (element_reader 4) region [VInt 7, VInt (- 1)] \<and>
      encodes_in_order (element_writer 4) [VInt 7, VInt (- 1)] region \<and>
      write_field_value \<lparr>dtype = 4, fvalue = VList [VInt 7, VInt (- 1)]\<rparr>
        = Inr (nat_le 8 1 @ nat_le 4 2 @ region))"
proof -
  have d: "(4 :: int) \<in> {4, 5, 6, 7}" by simp
  from array_presence_law [OF d, of two_int_array]
  have "\<forall>check r n r' v rest.
            read_field_value 4 two_int_array = Inr (v, rest) \<and>
            read_u64 two_int_array = Inr (check, r) \<and>
            check \<noteq> 0 \<and> read_u32 r = Inr (n, r') \<and> n \<noteq> 0 \<longrightarrow>
            (\<exists>xs region region'.
               v = VList xs \<and> length xs = nat n \<and>
               two_int_array = nat_le 8 (nat check) @ nat_le 4 (nat n) @ region @ rest \<and>
               decodes_in_order (element_reader 4) region xs \<and>
               write_field_value \<lparr>dtype = 4, fvalue = v\<rparr>
                 = Inr (nat_le 8 1 @ nat_le 4 (nat n) @ region') \<and>
               encodes_in_order (element_writer 4) xs region' \<and>
               (each_item (canonical_element 4) (element_reader 4) (nat n) r' \<longrightarrow>
                  region' = region) \<and>
               (\<forall>tl. read_field_value 4 (nat_le 8 1 @ nat_le 4 (nat n) @ region' @ tl)
                       = Inr (VList (map reencoded xs), tl)))"
    by blast
  from this [rule_format, of "VList [VInt 7, VInt (- 1)]" "[]" 1 "drop 8 two_int_array" 2
      "drop 12 two_int_array"]
    two_int_array_read two_int_array_marker two_int_array_count two_int_array_elements
  obtain region where
    "two_int_array = nat_le 8 (nat 1) @ nat_le 4 (nat 2) @ region @ []"
    "decodes_in_order (element_reader 4) region [VInt 7, VInt (- 1)]"
    "write_field_value \<lparr>dtype = 4, fvalue = VList [VInt 7, VInt (- 1)]\<rparr>
       = Inr (nat_le 8 1 @ nat_le 4 (nat 2) @ region)"
    "encodes_in_order (element_writer 4) [VInt 7, VInt (- 1)] region"
    by auto
  with two_int_array_read show ?thesis by (auto simp del: nat_le.simps)
qed

text \<open>
  C2 (amended). The decoder returns the same empty sequence for an absent array
  (marker 0) and for a present but empty one (any marker but 0, count 0), and the
  model keeps no trace of the marker. The encoder accepts every array value the
  decoder returns, and the eight marker bytes it emits are the original ones exactly
  when the marker is 0, or is 1 before a count that is not 0; an array with a count
  of 0 is always written as eight zero bytes.
\<close>

theorem array_marker_reproduced:
  assumes dt: "dt \<in> {4, 5, 6, 7}"
    and rd: "read_field_value dt bs = Inr (v, rest)"
    and mk: "read_u64 bs = Inr (check, r)"
  shows "\<exists>enc. write_field_value \<lparr>dtype = dt, fvalue = v\<rparr> = Inr enc \<and>
           (check = 0 \<longrightarrow> take 8 enc = take 8 bs) \<and>
           (\<forall>n r'. check \<noteq> 0 \<and> read_u32 r = Inr (n, r') \<longrightarrow>
              (take 8 enc = take 8 bs \<longleftrightarrow> check = 1 \<and> n \<noteq> 0) \<and>
              (n = 0 \<longrightarrow> v = VList [] \<and> enc = replicate 8 0))"
proof -
  from read_u64_bytes [OF mk] have c0: "0 \<le> check" and cb: "nat check < 256 ^ 8" by simp_all
  have tb: "take 8 bs = nat_le 8 (nat check)" by (rule read_u64_marker [OF mk])
  have one: "(1 :: nat) < 256 ^ 8" by simp
  have zero: "(0 :: nat) < 256 ^ 8" by simp
  show ?thesis
  proof (cases "check = 0")
    case True
    with array_field_decoded [OF dt rd mk] have v: "v = VList []" by simp
    from array_field_write_empty [OF dt] v
    have w: "write_field_value \<lparr>dtype = dt, fvalue = v\<rparr> = Inr (replicate 8 0)" by simp
    from tb True have "take 8 bs = replicate 8 0" by (simp add: nat_le_8_0 del: nat_le.simps)
    with w True show ?thesis by simp
  next
    case False
    from array_field_decoded [OF dt rd mk] False obtain n r' where
      cnt: "read_u32 r = Inr (n, r')"
      by blast
    from array_field_present [OF dt rd mk False cnt] obtain xs eb where
      v: "v = VList xs" and len: "length xs = nat n"
      and eb: "emit (element_writer dt) xs = Inr eb"
      by blast
    from read_u32_range [OF cnt] have n0: "0 \<le> n" by (simp add: in_u32_def)
    have ne: "nat_le 8 (nat check) \<noteq> nat_le 8 0"
    proof
      assume "nat_le 8 (nat check) = nat_le 8 0"
      from nat_le_inj [OF this cb zero] False c0 show False by simp
    qed
    show ?thesis
    proof (cases "n = 0")
      case True
      with len have xs: "xs = []" by simp
      with v array_field_write_empty [OF dt]
      have w: "write_field_value \<lparr>dtype = dt, fvalue = v\<rparr> = Inr (replicate 8 0)" by simp
      have "take 8 (replicate 8 (0 :: byte)) \<noteq> take 8 bs"
        using tb ne by (simp add: nat_le_8_0 del: nat_le.simps)
      with w v xs True False cnt show ?thesis by auto
    next
      case nz: False
      with n0 len have "xs \<noteq> []" by auto
      from array_field_written [OF dt this len cnt eb] v
      have w: "write_field_value \<lparr>dtype = dt, fvalue = v\<rparr>
                 = Inr (nat_le 8 1 @ nat_le 4 (nat n) @ eb)"
        by simp
      have t: "take 8 (nat_le 8 1 @ nat_le 4 (nat n) @ eb) = nat_le 8 1"
        by (simp del: nat_le.simps)
      have "nat_le 8 1 = nat_le 8 (nat check) \<longleftrightarrow> check = 1"
      proof
        assume "nat_le 8 1 = nat_le 8 (nat check)"
        from nat_le_inj [OF this one cb] c0 show "check = 1" by simp
      next
        assume "check = 1" then show "nat_le 8 1 = nat_le 8 (nat check)" by simp
      qed
      with t tb have "take 8 (nat_le 8 1 @ nat_le 4 (nat n) @ eb) = take 8 bs \<longleftrightarrow> check = 1"
        by simp
      with w nz False cnt show ?thesis by auto
    qed
  qed
qed

theorem array_marker_reproduced_witness:
  "read_field_value 4 two_int_array = Inr (VList [VInt 7, VInt (- 1)], []) \<and>
   read_u64 two_int_array = Inr (1, drop 8 two_int_array) \<and>
   read_u32 (drop 8 two_int_array) = Inr (2, drop 12 two_int_array) \<and>
   (\<exists>enc. write_field_value \<lparr>dtype = 4, fvalue = VList [VInt 7, VInt (- 1)]\<rparr> = Inr enc \<and>
          take 8 enc = take 8 two_int_array)"
proof -
  have d: "(4 :: int) \<in> {4, 5, 6, 7}" by simp
  from array_marker_reproduced [OF d two_int_array_read two_int_array_marker]
  obtain enc where
    w: "write_field_value \<lparr>dtype = 4, fvalue = VList [VInt 7, VInt (- 1)]\<rparr> = Inr enc"
    and a: "\<And>n r'. (1 :: int) \<noteq> 0 \<and> read_u32 (drop 8 two_int_array) = Inr (n, r') \<Longrightarrow>
              (take 8 enc = take 8 two_int_array) = ((1 :: int) = 1 \<and> n \<noteq> 0)"
    by blast
  from a [of 2 "drop 12 two_int_array"] two_int_array_count
  have "take 8 enc = take 8 two_int_array" by simp
  with w two_int_array_read two_int_array_marker two_int_array_count show ?thesis by blast
qed

text \<open>
  C2 as stated fails on a present but empty array: the twelve bytes of marker 1 and
  count 0 decode to the empty sequence, which is encoded as eight zero bytes, so the
  marker bytes written differ from the original ones.
\<close>

theorem present_empty_array_marker_lost:
  "read_field_value 4 present_empty_array = Inr (VList [], []) \<and>
   write_field_value \<lparr>dtype = 4, fvalue = VList []\<rparr> = Inr [0, 0, 0, 0, 0, 0, 0, 0] \<and>
   take 8 [0, 0, 0, 0, 0, 0, 0, 0 :: byte] \<noteq> take 8 present_empty_array"
  using present_empty_read write_empty_array
  by (simp add: present_empty_array_def)

section \<open>Round trip of \<^verbatim>\<open>read_par\<close> and \<^verbatim>\<open>write_par\<close>\<close>

text \<open>
  Writing, then reading: what the encoder writes from a value that fits the wire
  format, the decoder reads back as that value, level by level: field, field list,
  entry, list, file.
\<close>

lemma wire_field_dtype: "wire_field f \<Longrightarrow> 0 \<le> dtype f \<and> dtype f \<le> 7"
  unfolding wire_field_def Let_def
  by (auto split: if_splits pyvalue.splits)

lemma write_field_read:
  assumes "wire_field f"
  shows "\<exists>b. write_field_value f = Inr b \<and>
             (\<forall>rest. read_field_value (dtype f) (b @ rest) = Inr (fvalue f, rest))"
proof -
  from wire_field_dtype [OF assms]
  consider "dtype f = 0" | "dtype f = 1" | "dtype f = 2" | "dtype f = 3"
    | "dtype f = 4" | "dtype f = 5" | "dtype f = 6" | "dtype f = 7"
    by linarith
  then show ?thesis
  proof cases
    case 1
    with assms have "wire_element Fmt_i (fvalue f)" by (simp add: wire_field_def)
    from write_element_read [OF this] 1 show ?thesis
      by (simp add: write_field_value_def read_field_value_def write_element_def
          read_element_def)
  next
    case 2
    with assms have "wire_element Fmt_f (fvalue f)" by (simp add: wire_field_def)
    from write_element_read [OF this] 2 show ?thesis
      by (simp add: write_field_value_def read_field_value_def write_element_def
          read_element_def)
  next
    case 3
    with assms have "wire_element Fmt_I (fvalue f)" by (simp add: wire_field_def)
    from write_element_read [OF this] 3 show ?thesis
      by (simp add: write_field_value_def read_field_value_def write_element_def
          read_element_def)
  next
    case 4
    with assms have w: "wire_string_element (fvalue f)" by (simp add: wire_field_def)
    then obtain s where s: "fvalue f = VStr s" and "wire_string s"
      by (cases "fvalue f") simp_all
    then have "length s \<le> 1000000" by (simp add: wire_string_def)
    from write_string_element_read [OF s this] reencoded_wire [OF w] 4 show ?thesis
      by (simp add: write_field_value_def read_field_value_def)
  next
    case 5
    with assms obtain xs where v: "fvalue f = VList xs" and
      w: "length xs < 4294967296" "list_all (wire_element Fmt_i) xs"
      by (cases "fvalue f") (simp_all add: wire_field_def)
    from write_extra_array_read [OF w] v 5 show ?thesis
      by (simp add: write_field_value_def read_field_value_def)
  next
    case 6
    with assms obtain xs where v: "fvalue f = VList xs" and
      w: "length xs < 4294967296" "list_all (wire_element Fmt_f) xs"
      by (cases "fvalue f") (simp_all add: wire_field_def)
    from write_extra_array_read [OF w] v 6 show ?thesis
      by (simp add: write_field_value_def read_field_value_def)
  next
    case 7
    with assms obtain xs where v: "fvalue f = VList xs" and
      w: "length xs < 4294967296" "list_all (wire_element Fmt_I) xs"
      by (cases "fvalue f") (simp_all add: wire_field_def)
    from write_extra_array_read [OF w] v 7 show ?thesis
      by (simp add: write_field_value_def read_field_value_def)
  next
    case 8
    with assms obtain xs where v: "fvalue f = VList xs" and
      len: "length xs < 4294967296" and w: "list_all wire_string_element xs"
      by (cases "fvalue f") (simp_all add: wire_field_def)
    have el: "\<exists>s. x = VStr s \<and> length s \<le> 1000000" if "x \<in> set xs" for x
    proof -
      from that w have "wire_string_element x" by (simp add: list_all_iff)
      then show ?thesis by (cases x) (simp_all add: wire_string_def)
    qed
    have "\<And>x. x \<in> set xs \<Longrightarrow> reencoded x = x"
      using w by (auto simp: list_all_iff intro: reencoded_wire)
    then have "map reencoded xs = xs" by (rule map_idI)
    with write_extra_string_array_read [OF len el] v 8 show ?thesis
      by (simp add: write_field_value_def read_field_value_def)
  qed
qed

lemma write_fields_read:
  assumes "list_all wire_field fs"
  shows "\<exists>b. emit write_field_value fs = Inr b \<and>
             (\<forall>rest. read_fields (map dtype fs) (b @ rest) = Inr (fs, rest))"
  using assms
proof (induction fs)
  case Nil
  show ?case by simp
next
  case (Cons f fs)
  from Cons.prems have "wire_field f" by simp
  from write_field_read [OF this] obtain b where
    b: "write_field_value f = Inr b"
    and rb: "\<And>rest. read_field_value (dtype f) (b @ rest) = Inr (fvalue f, rest)"
    by blast
  from Cons obtain bs where
    bs: "emit write_field_value fs = Inr bs"
    and rbs: "\<And>rest. read_fields (map dtype fs) (bs @ rest) = Inr (fs, rest)"
    by auto
  have "read_fields (map dtype (f # fs)) ((b @ bs) @ rest) = Inr (f # fs, rest)" for rest
    using rb [of "bs @ rest"] rbs [of rest] by simp
  with b bs show ?case by simp
qed

lemma write_type_list_read:
  assumes "list_all wire_field fs"
  shows "\<exists>b. emit (\<lambda>field. Inr (write_u8 (dtype field))) fs = Inr b \<and>
             (\<forall>rest. read_n read_u8 (length fs) (b @ rest) = Inr (map dtype fs, rest))"
proof (rule read_n_emit)
  fix f assume "f \<in> set fs"
  with assms have "wire_field f" by (simp add: list_all_iff)
  from wire_field_dtype [OF this] have "dtype f mod 256 = dtype f" by simp
  then have "read_u8 (write_u8 (dtype f) @ rest) = Inr (dtype f, rest)" for rest
    using read_u8_write [of "dtype f" rest] by simp
  then show "\<exists>b. Inr (write_u8 (dtype f)) = Inr b \<and>
                (\<forall>rest. read_u8 (b @ rest) = Inr (dtype f, rest))"
    by simp
qed

lemma emit_Inr_Cons:
  "emit (\<lambda>w. w) (Inr a # ws) =
     (case emit (\<lambda>w. w) ws of Inl e \<Rightarrow> Inl e | Inr z \<Rightarrow> Inr (a @ z))"
  by simp

lemma emit_last: "emit (\<lambda>w. w) [Inr a] = Inr a"
  by simp

lemma write_entry_read:
  assumes "wire_entry e"
  shows "\<exists>b. write_entry e = Inr b \<and> (\<forall>rest. read_entry (b @ rest) = Inr (e, rest))"
proof -
  from assms have nm: "wire_string (name e)" and ub: "in_i8 (unknown_byte e)"
    and ua: "in_u16 (unknown_u16a e)" and ubb: "in_u16 (unknown_u16b e)"
    and len: "length (entry_fields e) < 65536"
    and fs: "list_all wire_field (entry_fields e)"
    by (simp_all add: wire_entry_def)
  from ub obtain b8 where b8: "write_i8 (unknown_byte e) = Inr b8"
    by (auto simp: write_i8_def in_i8_def)
  from write_type_list_read [OF fs] obtain tb where
    tb: "emit (\<lambda>field. Inr (write_u8 (dtype field))) (entry_fields e) = Inr tb"
    and rtb: "\<And>rest. read_n read_u8 (length (entry_fields e)) (tb @ rest)
                = Inr (map dtype (entry_fields e), rest)"
    by blast
  from write_fields_read [OF fs] obtain vb where
    vb: "emit write_field_value (entry_fields e) = Inr vb"
    and rvb: "\<And>rest. read_fields (map dtype (entry_fields e)) (vb @ rest)
                = Inr (entry_fields e, rest)"
    by blast
  let ?b = "write_delphi_string (name e) @ b8 @
            write_u16 (int (length (entry_fields e))) @ write_u16 (unknown_u16a e) @
            write_u16 (unknown_u16b e) @ tb @ vb"
  have w: "write_entry e = Inr ?b"
    using b8 tb vb by (simp add: write_entry_def raised_def del: emit.simps(2) add: emit_Inr_Cons emit_last)
  have m1: "int (length (entry_fields e)) mod 65536 = int (length (entry_fields e))"
    using len by simp
  have m2: "unknown_u16a e mod 65536 = unknown_u16a e" using ua by (simp add: in_u16_def)
  have m3: "unknown_u16b e mod 65536 = unknown_u16b e" using ubb by (simp add: in_u16_def)
  have "read_entry (?b @ rest) = Inr (e, rest)" for rest
    unfolding read_entry_def
    using read_delphi_string_write [OF nm] read_i8_write [OF b8] m1 m2 m3 rtb rvb
    by (simp add: read_u16_write)
  with w show ?thesis by blast
qed


lemma write_list_read:
  assumes "wire_list pl"
  shows "\<exists>b. write_list pl = Inr b \<and> (\<forall>rest. read_list (b @ rest) = Inr (pl, rest))"
proof -
  from assms have u1: "in_u32 (unknown1 pl)" and u2: "in_u32 (unknown2 pl)"
    and len: "length (entries pl) < 4294967296"
    and es: "list_all wire_entry (entries pl)"
    by (simp_all add: wire_list_def)
  have "\<exists>bs. emit write_entry (entries pl) = Inr bs \<and>
          (\<forall>rest. read_n read_entry (length (entries pl)) (bs @ rest)
             = Inr (map (\<lambda>e. e) (entries pl), rest))"
  proof (rule read_n_emit)
    fix e assume "e \<in> set (entries pl)"
    with es have "wire_entry e" by (simp add: list_all_iff)
    then show "\<exists>b. write_entry e = Inr b \<and> (\<forall>rest. read_entry (b @ rest) = Inr (e, rest))"
      by (rule write_entry_read)
  qed
  then obtain eb where
    eb: "emit write_entry (entries pl) = Inr eb"
    and reb: "\<And>rest. read_n read_entry (length (entries pl)) (eb @ rest)
                = Inr (entries pl, rest)"
    by auto
  let ?b = "write_u32 (unknown1 pl) @ write_u32 (unknown2 pl) @
            write_u32 (int (length (entries pl))) @ eb"
  have w: "write_list pl = Inr ?b"
    using eb by (simp add: write_list_def emit_Inr_Cons emit_last del: emit.simps(2))
  have m1: "unknown1 pl mod 4294967296 = unknown1 pl" using u1 by (simp add: in_u32_def)
  have m2: "unknown2 pl mod 4294967296 = unknown2 pl" using u2 by (simp add: in_u32_def)
  have m3: "int (length (entries pl)) mod 4294967296 = int (length (entries pl))"
    using len by simp
  have "read_list (?b @ rest) = Inr (pl, rest)" for rest
    unfolding read_list_def
    using m1 m2 m3 reb by (simp add: read_u32_write)
  with w show ?thesis by blast
qed

lemma write_lists_read:
  assumes "list_all wire_list ls"
  shows "\<exists>bs. emit write_list ls = Inr bs \<and>
           (\<forall>rest. read_n read_list (length ls) (bs @ rest) = Inr (ls, rest))"
proof -
  have "\<exists>bs. emit write_list ls = Inr bs \<and>
          (\<forall>rest. read_n read_list (length ls) (bs @ rest) = Inr (map (\<lambda>l. l) ls, rest))"
  proof (rule read_n_emit)
    fix pl assume "pl \<in> set ls"
    with assms have "wire_list pl" by (simp add: list_all_iff)
    then show "\<exists>b. write_list pl = Inr b \<and> (\<forall>rest. read_list (b @ rest) = Inr (pl, rest))"
      by (rule write_list_read)
  qed
  then show ?thesis by simp
qed

lemma length_PAR_MAGIC: "length PAR_MAGIC = 4"
  by (simp add: PAR_MAGIC_def)

lemma decoded_record:
  "new_ParFile\<lparr>version := version m, par_lists := par_lists m,
      trailing_data := trailing_data m\<rparr> = as_decoded m"
  by (simp add: new_ParFile_def as_decoded_def)

lemma write_par_as_decoded: "write_par (as_decoded m) = write_par m"
proof -
  have "version (as_decoded m) = version m" "par_lists (as_decoded m) = par_lists m"
    "trailing_data (as_decoded m) = trailing_data m"
    by (simp_all add: as_decoded_def)
  then show ?thesis unfolding write_par_def by (simp only:)
qed

lemma write_par_read:
  assumes "wire_file m" and "write_par m = Inr b"
  shows "read_par b = Inr (as_decoded m)"
proof -
  from assms(1) have v: "in_u32 (version m)" and len: "length (par_lists m) < 4294967296"
    and ls: "list_all wire_list (par_lists m)" and tr: "trailing_data m \<noteq> Some []"
    by (simp_all add: wire_file_def)
  from write_lists_read [OF ls] obtain lb where
    lb: "emit write_list (par_lists m) = Inr lb"
    and rlb: "\<And>rest. read_n read_list (length (par_lists m)) (lb @ rest)
                = Inr (par_lists m, rest)"
    by blast
  define t where "t = (case trailing_data m of None \<Rightarrow> [] | Some x \<Rightarrow> x)"
  have tm: "trailing_data m = (if t \<noteq> [] then Some t else None)"
    using tr by (cases "trailing_data m") (simp_all add: t_def)
  let ?h = "write_u32 (version m) @ write_u32 (int (length (par_lists m))) @ write_u32 0"
  have "write_par m = Inr (PAR_MAGIC @ ?h @ lb @ t)"
    using lb tm
    by (simp add: write_par_def emit_Inr_Cons emit_last del: emit.simps(2))
  with assms(2) have b: "b = PAR_MAGIC @ ?h @ lb @ t" by simp
  have m1: "version m mod 4294967296 = version m" using v by (simp add: in_u32_def)
  have m2: "int (length (par_lists m)) mod 4294967296 = int (length (par_lists m))"
    using len by simp
  have "read_par (PAR_MAGIC @ ?h @ lb @ t) =
          Inr (new_ParFile\<lparr>version := version m, par_lists := par_lists m,
                 trailing_data := trailing_data m\<rparr>)"
    unfolding read_par_def
    using m1 m2 rlb [of t] tm
    by (simp add: read_bytes_append [OF length_PAR_MAGIC] read_u32_write)
  with b show ?thesis by (simp only: decoded_record)
qed

text \<open>
  Reading, then writing: the entry, the list and the file.
\<close>

lemma read_field_value_bytes:
  assumes rd: "read_field_value dt bs = Inr (v, rest)" and can: "canonical_field dt bs"
  shows "\<exists>b. write_field_value \<lparr>dtype = dt, fvalue = v\<rparr> = Inr b \<and> bs = b @ rest"
proof -
  from rd have "dt = 0 \<or> dt = 1 \<or> dt = 2 \<or> dt = 3 \<or> dt \<in> {4, 5, 6, 7}"
    by (auto simp: read_field_value_def split: if_splits)
  then consider "dt = 0" | "dt = 1" | "dt = 2" | "dt = 3" | "dt \<in> {4, 5, 6, 7}" by blast
  then show ?thesis
  proof cases
    case 1
    with rd obtain i where r: "read_i32 bs = Inr (i, rest)" and v: "v = VInt i"
      by (auto simp: read_field_value_def split: sum.splits)
    from read_i32_bytes [OF r] 1 v show ?thesis
      by (auto simp: write_field_value_def py_int_def raised_def)
  next
    case 2
    with rd obtain w where r: "read_f32 bs = Inr (w, rest)" and v: "v = VFloat w"
      by (auto simp: read_field_value_def split: sum.splits)
    from 2 can have "canonical_f32 bs" by (simp add: canonical_field_def)
    from read_f32_bytes [OF r this] 2 v show ?thesis
      by (simp add: write_field_value_def py_float_def)
  next
    case 3
    with rd obtain i where r: "read_u32 bs = Inr (i, rest)" and v: "v = VInt i"
      by (auto simp: read_field_value_def split: sum.splits)
    from read_u32_bytes [OF r] 3 v show ?thesis
      by (simp add: write_field_value_def py_int_def)
  next
    case 4
    with rd have r: "read_string_element bs = Inr (v, rest)"
      by (simp add: read_field_value_def)
    from 4 can have "canonical_string bs" by (simp add: canonical_field_def)
    from read_string_element_bytes [OF r this] 4 show ?thesis
      by (simp add: write_field_value_def)
  next
    case 5
    from 5 can have ca: "canonical_array (canonical_element dt) (element_reader dt) bs"
      by (auto simp: canonical_field_def)
    from rd obtain check r where mk: "read_u64 bs = Inr (check, r)"
      unfolding read_array_field [OF 5] by (auto split: sum.splits)
    from read_u64_bytes [OF mk] have bs: "bs = nat_le 8 (nat check) @ r" by simp
    show ?thesis
    proof (cases "check = 0")
      case True
      with array_field_decoded [OF 5 rd mk] have "v = VList []" and "rest = r" by simp_all
      with write_array_field [OF 5, of "[]"] bs True show ?thesis by (simp del: nat_le.simps)
    next
      case False
      from array_field_decoded [OF 5 rd mk] False obtain n r' where
        cnt: "read_u32 r = Inr (n, r')"
        by blast
      from ca mk cnt False have one: "check = 1" and n: "n \<noteq> 0"
        and each: "each_item (canonical_element dt) (element_reader dt) (nat n) r'"
        by (simp_all add: canonical_array_def)
      from array_field_present [OF 5 rd mk False cnt] each obtain xs region where
        v: "v = VList xs" and len: "length xs = nat n"
        and b: "bs = nat_le 8 (nat check) @ nat_le 4 (nat n) @ region @ rest"
        and eb: "emit (element_writer dt) xs = Inr region"
        by blast
      from read_u32_range [OF cnt] n have "nat n \<noteq> 0" by (simp add: in_u32_def)
      with len have "xs \<noteq> []" by auto
      from array_field_written [OF 5 this len cnt eb] v b one show ?thesis
        by (simp del: nat_le.simps)
    qed
  qed
qed

lemma read_fields_bytes:
  assumes "read_fields dts bs = Inr (fs, rest)" and "canonical_fields dts bs"
  shows "map dtype fs = dts \<and> (\<exists>b. emit write_field_value fs = Inr b \<and> bs = b @ rest)"
  using assms
proof (induction dts arbitrary: bs fs)
  case Nil
  then show ?case by simp
next
  case (Cons dt dts)
  from Cons.prems(1) obtain v r gs where
    v: "read_field_value dt bs = Inr (v, r)" and gs: "read_fields dts r = Inr (gs, rest)"
    and fs: "fs = \<lparr>dtype = dt, fvalue = v\<rparr> # gs"
    by (auto split: sum.splits)
  from Cons.prems(2) v have c: "canonical_field dt bs" and cs: "canonical_fields dts r"
    by simp_all
  from read_field_value_bytes [OF v c] obtain b where
    b: "write_field_value \<lparr>dtype = dt, fvalue = v\<rparr> = Inr b" and bs: "bs = b @ r"
    by blast
  from Cons.IH [OF gs cs] obtain b' where m: "map dtype gs = dts"
    and b': "emit write_field_value gs = Inr b'" and r: "r = b' @ rest"
    by blast
  from b b' bs r m fs show ?case by simp
qed

lemma read_type_list_bytes:
  assumes "read_n read_u8 n bs = Inr (tys, rest)"
  shows "\<exists>b. emit (\<lambda>dt. Inr (write_u8 dt)) tys = Inr b \<and> bs = b @ rest \<and> length tys = n"
proof -
  have "\<exists>b. emit (\<lambda>dt. Inr (write_u8 dt)) tys = Inr b \<and> bs = b @ rest"
  proof (rule read_n_bytes [of read_u8 "\<lambda>b. True" _ n bs tys rest, OF _ assms])
    fix bs x rest assume "read_u8 bs = Inr (x, rest)"
    from read_u8_bytes [OF this]
    show "\<exists>b. Inr (write_u8 x) = Inr b \<and> bs = b @ rest" by simp
  next
    show "each_item (\<lambda>b. True) read_u8 n bs"
      by (induction n arbitrary: bs) (simp_all split: sum.splits)
  qed
  moreover from read_n_all [OF assms, of "\<lambda>x. True"] have "length tys = n" by simp
  ultimately show ?thesis by blast
qed

lemma emit_map: "emit f (map g xs) = emit (\<lambda>x. f (g x)) xs"
  by (induction xs) (simp_all split: sum.splits)

lemma emit_Inr_Cons':
  "emit (\<lambda>w. w) (Inr a # ws) =
     (case emit (\<lambda>w. w) ws of Inl e \<Rightarrow> Inl e | Inr z \<Rightarrow> Inr (a @ z))"
  by simp

lemma read_entry_bytes:
  assumes rd: "read_entry bs = Inr (e, rest)" and can: "canonical_entry bs"
  shows "\<exists>b. write_entry e = Inr b \<and> bs = b @ rest"
proof -
  from rd obtain nm r1 ub r2 n r3 ua r4 ub16 r5 tys r6 fs where
    s1: "read_delphi_string bs = Inr (nm, r1)" and s2: "read_i8 r1 = Inr (ub, r2)"
    and s3: "read_u16 r2 = Inr (n, r3)" and s4: "read_u16 r3 = Inr (ua, r4)"
    and s5: "read_u16 r4 = Inr (ub16, r5)"
    and s6: "read_n read_u8 (nat n) r5 = Inr (tys, r6)"
    and s7: "read_fields tys r6 = Inr (fs, rest)"
    and e: "e = \<lparr>name = nm, unknown_byte = ub, unknown_u16a = ua, unknown_u16b = ub16,
                 entry_fields = fs\<rparr>"
    unfolding read_entry_def by (auto split: sum.splits)
  from can s1 s2 s3 s4 s5 s6 have cs: "canonical_string bs" and cf: "canonical_fields tys r6"
    by (simp_all add: canonical_entry_def)
  from read_delphi_string_bytes [OF s1 cs] have b1: "bs = write_delphi_string nm @ r1" .
  from read_i8_bytes [OF s2] obtain b8 where w8: "write_i8 ub = Inr b8" and b2: "r1 = b8 @ r2"
    by blast
  from read_u16_bytes [OF s3] have b3: "r2 = write_u16 n @ r3" and n0: "0 \<le> n" by simp_all
  from read_u16_bytes [OF s4] have b4: "r3 = write_u16 ua @ r4" by simp
  from read_u16_bytes [OF s5] have b5: "r4 = write_u16 ub16 @ r5" by simp
  from read_type_list_bytes [OF s6] obtain tb where
    tb: "emit (\<lambda>dt. Inr (write_u8 dt)) tys = Inr tb" and b6: "r5 = tb @ r6"
    and lt: "length tys = nat n"
    by blast
  from read_fields_bytes [OF s7 cf] obtain vb where m: "map dtype fs = tys"
    and vb: "emit write_field_value fs = Inr vb" and b7: "r6 = vb @ rest"
    by blast
  from m tb have tb': "emit (\<lambda>field. Inr (write_u8 (dtype field))) fs = Inr tb"
    using emit_map [of "\<lambda>dt. Inr (write_u8 dt)" dtype fs] by simp
  from m lt have "length fs = nat n" by (metis length_map)
  with n0 have cnt: "int (length fs) = n" by simp
  have "write_entry e = Inr (write_delphi_string nm @ b8 @ write_u16 n @ write_u16 ua @
                             write_u16 ub16 @ tb @ vb)"
    using w8 tb' vb cnt e
    by (simp add: write_entry_def raised_def emit_Inr_Cons' del: emit.simps(2))
  with b1 b2 b3 b4 b5 b6 b7 show ?thesis by simp
qed

lemma read_list_bytes:
  assumes rd: "read_list bs = Inr (pl, rest)" and can: "canonical_list bs"
  shows "\<exists>b. write_list pl = Inr b \<and> bs = b @ rest"
proof -
  from rd obtain u1 r1 u2 r2 n r3 es where
    s1: "read_u32 bs = Inr (u1, r1)" and s2: "read_u32 r1 = Inr (u2, r2)"
    and s3: "read_u32 r2 = Inr (n, r3)"
    and s4: "read_n read_entry (nat n) r3 = Inr (es, rest)"
    and pl: "pl = \<lparr>unknown1 = u1, unknown2 = u2, entries = es\<rparr>"
    unfolding read_list_def by (auto split: sum.splits)
  from can s1 s2 s3 have each: "each_item canonical_entry read_entry (nat n) r3"
    by (simp add: canonical_list_def)
  from read_u32_bytes [OF s1] have b1: "bs = write_u32 u1 @ r1" by simp
  from read_u32_bytes [OF s2] have b2: "r1 = write_u32 u2 @ r2" by simp
  from read_u32_bytes [OF s3] have b3: "r2 = write_u32 n @ r3" and n0: "0 \<le> n" by simp_all
  from read_n_bytes [of read_entry canonical_entry write_entry, OF read_entry_bytes s4 each]
  obtain eb where eb: "emit write_entry es = Inr eb" and b4: "r3 = eb @ rest" by blast
  from read_n_all [OF s4, of "\<lambda>x. True"] n0 have cnt: "int (length es) = n" by simp
  have "write_list pl = Inr (write_u32 u1 @ write_u32 u2 @ write_u32 n @ eb)"
    using eb cnt pl by (simp add: write_list_def emit_Inr_Cons' del: emit.simps(2))
  with b1 b2 b3 b4 show ?thesis by simp
qed

lemmas canonical_defs = canonical_file_def canonical_list_def canonical_entry_def
  canonical_field_def canonical_array_def canonical_element_def canonical_string_def
  canonical_f32_def element_reader_def read_par_def read_list_def read_entry_def
  quiet_nan_def

lemma rich_read: "read_par rich_bytes = Inr rich_model"
  by (simp add: rich_bytes_def rich_model_def new_ParFile_def read_par_def read_list_def
      read_entry_def PAR_MAGIC_def quiet_nan_def eval_defs)

lemma rich_canonical: "canonical_file rich_bytes"
  by (simp add: rich_bytes_def canonical_defs PAR_MAGIC_def eval_defs)

text \<open>
  C1 (amended). For every byte buffer that \<^verbatim>\<open>read_par\<close> decodes into a model and
  that is canonical (the reserved header word is 0, no string byte is above 127, no
  float32 is a signalling NaN, every array presence marker is 0 or is 1 before a
  count that is not 0), \<^verbatim>\<open>write_par\<close> applied to that model returns the buffer, byte
  for byte, trailing bytes included.
\<close>

theorem canonical_buffer_reproduced:
  assumes rd: "read_par buf = Inr m" and can: "canonical_file buf"
  shows "write_par m = Inr buf"
proof -
  from rd obtain magic r1 ver r2 n r3 pad r4 ls r5 where
    s0: "read_bytes 4 buf = Inr (magic, r1)" and mg: "magic = PAR_MAGIC"
    and s1: "read_u32 r1 = Inr (ver, r2)" and s2: "read_u32 r2 = Inr (n, r3)"
    and s3: "read_u32 r3 = Inr (pad, r4)"
    and s4: "read_n read_list (nat n) r4 = Inr (ls, r5)"
    and m: "m = new_ParFile\<lparr>version := ver, par_lists := ls,
                 trailing_data := (if r5 \<noteq> [] then Some r5 else None)\<rparr>"
    unfolding read_par_def by (auto split: sum.splits if_splits)
  from can s0 s1 s2 s3 have pad: "pad = 0"
    and each: "each_item canonical_list read_list (nat n) r4"
    by (simp_all add: canonical_file_def)
  from read_bytes_Inr [OF s0] mg have b0: "buf = PAR_MAGIC @ r1" by simp
  from read_u32_bytes [OF s1] have b1: "r1 = write_u32 ver @ r2" by simp
  from read_u32_bytes [OF s2] have b2: "r2 = write_u32 n @ r3" and n0: "0 \<le> n" by simp_all
  from read_u32_bytes [OF s3] pad have b3: "r3 = write_u32 0 @ r4" by simp
  from read_n_bytes [of read_list canonical_list write_list, OF read_list_bytes s4 each]
  obtain lb where lb: "emit write_list ls = Inr lb" and b4: "r4 = lb @ r5" by blast
  from read_n_all [OF s4, of "\<lambda>x. True"] n0 have cnt: "int (length ls) = n" by simp
  have v: "version m = ver" and l: "par_lists m = ls"
    and t: "trailing_data m = (if r5 \<noteq> [] then Some r5 else None)"
    using m by simp_all
  have "write_par m = Inr (PAR_MAGIC @ write_u32 ver @ write_u32 n @ write_u32 0 @ lb @ r5)"
    unfolding write_par_def v l t
    using lb cnt by (simp add: emit_Inr_Cons' del: emit.simps(2))
  with b0 b1 b2 b3 b4 show ?thesis by simp
qed

theorem canonical_buffer_reproduced_witness:
  "read_par rich_bytes = Inr rich_model \<and> canonical_file rich_bytes \<and>
   write_par rich_model = Inr rich_bytes"
  using canonical_buffer_reproduced [OF rich_read rich_canonical] rich_read rich_canonical
  by simp

text \<open>
  Each of the four conditions is needed; the reserved word is shown below, the
  present but empty array above, and here are a signalling NaN, a string byte above
  127 and a presence marker of 2, each read and written back differently.
\<close>

lemma signalling_nan_quieted:
  "read_field_value 1 [1, 0, 0x80, 0x7F] = Inr (VFloat 0x7FC00001, []) \<and>
   write_field_value \<lparr>dtype = 1, fvalue = VFloat 0x7FC00001\<rparr> = Inr [1, 0, 0xC0, 0x7F]"
  by (simp add: quiet_nan_def eval_defs)

lemma high_byte_replaced:
  "read_field_value 3 [1, 0, 0, 0, 0xE9] = Inr (VStr [0xFFFD], []) \<and>
   write_field_value \<lparr>dtype = 3, fvalue = VStr [0xFFFD]\<rparr> = Inr [1, 0, 0, 0, 0x3F]"
  by (simp add: eval_defs)

lemma marker_two_rewritten:
  "read_field_value 4 [2, 0, 0, 0, 0, 0, 0, 0, 1, 0, 0, 0, 7, 0, 0, 0]
     = Inr (VList [VInt 7], []) \<and>
   write_field_value \<lparr>dtype = 4, fvalue = VList [VInt 7]\<rparr>
     = Inr [1, 0, 0, 0, 0, 0, 0, 0, 1, 0, 0, 0, 7, 0, 0, 0]"
  by (simp add: eval_defs)

text \<open>
  C1 as stated fails on a buffer whose reserved header word is not zero: the sixteen
  bytes of the magic, version \<open>0x600\<close>, list count 0 and reserved word 1 decode to
  the empty model, which is encoded with the reserved word 0.
\<close>

theorem reserved_word_not_reproduced:
  "read_par nonzero_pad_buffer = Inr (new_ParFile\<lparr>par_lists := []\<rparr>) \<and>
   write_par (new_ParFile\<lparr>par_lists := []\<rparr>) =
     Inr [0x50, 0x41, 0x52, 0x00, 0x00, 0x06, 0, 0, 0, 0, 0, 0, 0, 0, 0, 0] \<and>
   write_par (new_ParFile\<lparr>par_lists := []\<rparr>) \<noteq> Inr nonzero_pad_buffer"
  by (simp add: nonzero_pad_buffer_def new_ParFile_def read_par_def write_par_def
      PAR_MAGIC_def eval_defs)

section \<open>Merge: applying a selection twice\<close>

text \<open>
  One round of the loop on a mergeable record returns, leaves the record settled,
  keeps every other mergeable record mergeable and every settled one settled; on a
  settled record it leaves the model as it is.
\<close>

lemma is_last_named_unique:
  assumes "is_last_named es i nm" and "is_last_named es j nm"
  shows "i = j"
proof (rule ccontr)
  assume "i \<noteq> j"
  then consider "i < j" | "j < i" by linarith
  then show False
  proof cases
    case 1
    with assms show False unfolding is_last_named_def by blast
  next
    case 2
    with assms show False unfolding is_last_named_def by blast
  qed
qed

lemma extends_refl: "extends src src"
  by (simp add: extends_def)

lemma keeps_extends: "keeps src src' \<Longrightarrow> extends src src'"
  by (simp add: keeps_def extends_def)

lemma extends_mergeable:
  assumes "extends src src'" and "mergeable inp src d"
  shows "mergeable inp src' d"
proof (cases "diff_type d")
  case Changed
  let ?l = "nat (src_li d)" and ?e = "nat (src_ei d)"
  from assms(2) Changed have l: "?l < length (par_lists src)"
    and e: "?e < length (entries (par_lists src ! ?l))"
    by (simp_all add: mergeable_def)
  from assms(1) l have l': "?l < length (par_lists src')"
    by (simp add: extends_def)
  from assms(1) l e have e': "?e < length (entries (par_lists src' ! ?l))"
    unfolding extends_def by (meson less_le_trans)
  from assms(1) l e have "name (entries (par_lists src' ! ?l) ! ?e)
      = name (entries (par_lists src ! ?l) ! ?e)"
    unfolding extends_def by blast
  with assms(2) Changed l' e' show ?thesis
    by (simp add: mergeable_def)
next
  case InputOnly
  with assms(2) show ?thesis by (simp add: mergeable_def)
next
  case SourceOnly
  then show ?thesis by (simp add: mergeable_def)
qed

lemma extends_settled_input_only:
  assumes "extends src src'" and "diff_type d = InputOnly" and "settled inp src d"
  shows "settled inp src' d"
proof -
  let ?l = "nat (inp_li d)"
  let ?n = "name (entries (par_lists inp ! ?l) ! nat (inp_ei d))"
  from assms(2,3) have l: "?l < length (par_lists src)"
    and "?n \<in> name ` set (entries (par_lists src ! ?l))"
    by (simp_all add: settled_def)
  then obtain ei where ei: "ei < length (entries (par_lists src ! ?l))"
    and n: "name (entries (par_lists src ! ?l) ! ei) = ?n"
    by (auto simp: in_set_conv_nth)
  from assms(1) l have l': "?l < length (par_lists src')"
    by (simp add: extends_def)
  from assms(1) l ei have ei': "ei < length (entries (par_lists src' ! ?l))"
    unfolding extends_def by (meson less_le_trans)
  from assms(1) l ei n have "name (entries (par_lists src' ! ?l) ! ei) = ?n"
    unfolding extends_def by simp
  with ei' have "?n \<in> name ` set (entries (par_lists src' ! ?l))"
    by (metis imageI nth_mem)
  with l' assms(2) show ?thesis by (simp add: settled_def)
qed

lemma keeps_settled_changed:
  assumes "keeps src src'" and "diff_type d = Changed" and "mergeable inp src d"
    and "settled inp src d"
  shows "settled inp src' d"
proof -
  let ?l = "nat (src_li d)" and ?e = "nat (src_ei d)"
  from assms(2,3) have l: "?l < length (par_lists src)"
    and e: "?e < length (entries (par_lists src ! ?l))"
    by (simp_all add: mergeable_def)
  from assms(1) l e have "entries (par_lists src' ! ?l) ! ?e = entries (par_lists src ! ?l) ! ?e"
    unfolding keeps_def by blast
  with assms(2,4) show ?thesis by (simp add: settled_def)
qed

text \<open>Replacing the field list of one entry of a model.\<close>

lemma replaced_fields:
  fixes fs :: "ParField list"
  assumes l: "l < length (par_lists src)" and e: "e < length (entries (par_lists src ! l))"
  defines "src' \<equiv> src\<lparr>par_lists := (par_lists src)
                      [l := (par_lists src ! l)\<lparr>entries := (entries (par_lists src ! l))
                         [e := (entries (par_lists src ! l) ! e)\<lparr>entry_fields := fs\<rparr>]\<rparr>]\<rparr>"
  shows "length (par_lists src') = length (par_lists src)"
    and "\<And>li. li < length (par_lists src) \<Longrightarrow>
           length (entries (par_lists src' ! li)) = length (entries (par_lists src ! li))"
    and "\<And>li ei. li < length (par_lists src) \<Longrightarrow> ei < length (entries (par_lists src ! li)) \<Longrightarrow>
           name (entries (par_lists src' ! li) ! ei) = name (entries (par_lists src ! li) ! ei)"
    and "\<And>li ei. li < length (par_lists src) \<Longrightarrow> ei < length (entries (par_lists src ! li)) \<Longrightarrow>
           entry_fields (entries (par_lists src' ! li) ! ei) =
             (if li = l \<and> ei = e then fs else entry_fields (entries (par_lists src ! li) ! ei))"
    and "fs = entry_fields (entries (par_lists src ! l) ! e) \<Longrightarrow> src' = src"
proof -
  show "length (par_lists src') = length (par_lists src)"
    by (simp add: src'_def)
  show "length (entries (par_lists src' ! li)) = length (entries (par_lists src ! li))"
    if "li < length (par_lists src)" for li
    using that by (cases "li = l") (simp_all add: src'_def)
  show "name (entries (par_lists src' ! li) ! ei) = name (entries (par_lists src ! li) ! ei)"
    if "li < length (par_lists src)" "ei < length (entries (par_lists src ! li))" for li ei
  proof (cases "li = l")
    case True
    with that show ?thesis by (cases "ei = e") (simp_all add: src'_def)
  next
    case False
    with that show ?thesis by (simp add: src'_def)
  qed
  show "entry_fields (entries (par_lists src' ! li) ! ei) =
          (if li = l \<and> ei = e then fs else entry_fields (entries (par_lists src ! li) ! ei))"
    if "li < length (par_lists src)" "ei < length (entries (par_lists src ! li))" for li ei
  proof (cases "li = l")
    case True
    with that show ?thesis by (cases "ei = e") (simp_all add: src'_def)
  next
    case False
    with that show ?thesis by (simp add: src'_def)
  qed
  show "src' = src" if "fs = entry_fields (entries (par_lists src ! l) ! e)"
    using that by (simp add: src'_def)
qed

lemma changed_step:
  assumes ty: "diff_type d = Changed" and m: "mergeable inp src d"
  shows "\<exists>src'. merge_step inp d (src, c, a) = Inr (src', c + counted inp d, a) \<and>
           extends src src' \<and> settled inp src' d \<and>
           (\<forall>d'. diff_type d' = Changed \<and> mergeable inp src d' \<and> settled inp src d'
                 \<longrightarrow> settled inp src' d')"
proof -
  let ?l = "nat (src_li d)" and ?e = "nat (src_ei d)" and ?i = "nat (inp_ei d)"
    and ?f = "nat (field_idx d)"
  let ?se = "entries (par_lists src ! ?l) ! ?e"
  let ?ie = "entries (par_lists inp ! ?l) ! ?i"
  from ty m have f0: "0 \<le> field_idx d" and l0: "0 \<le> src_li d" and e0: "0 \<le> src_ei d"
    and i0: "0 \<le> inp_ei d" and il: "inp_li d = src_li d"
    and l: "?l < length (par_lists src)" and li: "?l < length (par_lists inp)"
    and e: "?e < length (entries (par_lists src ! ?l))"
    and last: "is_last_named (entries (par_lists inp ! ?l)) ?i (name ?se)"
    by (simp_all add: mergeable_def)
  from last have i: "?i < length (entries (par_lists inp ! ?l))"
    by (simp add: is_last_named_def)
  have il0: "0 \<le> inp_li d" using il l0 by simp
  have li': "nat (inp_li d) < length (par_lists inp)" using il li by simp
  have i': "nat (inp_ei d) < length (entries (par_lists inp ! nat (inp_li d)))"
    using il i by simp
  note res = merge_changed_resolved [OF l0 l e0 e il0 li' i0 i' f0, of c a]
  show ?thesis
  proof (cases "?f < length (entry_fields ?ie)")
    case False
    then have cnt: "counted inp d = 0" by (simp add: counted_def il)
    from res False ty have "merge_step inp d (src, c, a) = Inr (src, c, a)"
      by (simp add: merge_step_def Let_def il)
    moreover have "settled inp src d"
      using ty False by (simp add: settled_def il Let_def)
    ultimately show ?thesis using cnt extends_refl by auto
  next
    case True
    define fs where
      "fs = (pad_fields (entry_fields ?se) (field_idx d))[?f := entry_fields ?ie ! ?f]"
    define src' where
      "src' = src\<lparr>par_lists := (par_lists src)
                [?l := (par_lists src ! ?l)\<lparr>entries := (entries (par_lists src ! ?l))
                   [?e := ?se\<lparr>entry_fields := fs\<rparr>]\<rparr>]\<rparr>"
    note rf = replaced_fields [OF l e, where fs = fs, folded src'_def]
    have step: "merge_step inp d (src, c, a) = Inr (src', c + 1, a)"
      using res True ty by (simp add: merge_step_def Let_def il src'_def fs_def)
    have cnt: "counted inp d = 1" using ty True by (simp add: counted_def il)
    have ext: "extends src src'"
      unfolding extends_def using rf(1,2,3) by simp
    have inpad: "?f < length (pad_fields (entry_fields ?se) (field_idx d))"
      using f0 by (simp add: length_pad_fields)
    have fl: "length (entry_fields ?se) \<le> length fs" "?f < length fs"
      using inpad by (simp_all add: fs_def length_pad_fields)
    have fat: "fs ! ?f = entry_fields ?ie ! ?f"
      using inpad by (simp add: fs_def)
    have fother: "fs ! k = entry_fields ?se ! k"
      if "k < length (entry_fields ?se)" "k \<noteq> ?f" for k
      using that by (simp add: fs_def pad_fields_def nth_append)
    have new: "entry_fields (entries (par_lists src' ! ?l) ! ?e) = fs"
      using rf(4) [OF l e] by simp
    have self: "settled inp src' d"
      using ty new fl fat by (simp add: settled_def Let_def il)
    have pres: "settled inp src' d'"
      if ty': "diff_type d' = Changed" and m': "mergeable inp src d'"
        and s': "settled inp src d'" for d'
    proof -
      let ?l' = "nat (src_li d')" and ?e' = "nat (src_ei d')" and ?i' = "nat (inp_ei d')"
        and ?f' = "nat (field_idx d')"
      let ?se' = "entries (par_lists src ! ?l') ! ?e'"
      let ?ie' = "entries (par_lists inp ! ?l') ! ?i'"
      from ty' m' have il': "inp_li d' = src_li d'"
        and l': "?l' < length (par_lists src)"
        and e': "?e' < length (entries (par_lists src ! ?l'))"
        and last': "is_last_named (entries (par_lists inp ! ?l')) ?i' (name ?se')"
        by (simp_all add: mergeable_def)
      from ty' s' il' have old: "?f' < length (entry_fields ?ie') \<longrightarrow>
          ?f' < length (entry_fields ?se') \<and> entry_fields ?se' ! ?f' = entry_fields ?ie' ! ?f'"
        by (simp add: settled_def Let_def)
      have goal: "settled inp src' d' \<longleftrightarrow>
          (?f' < length (entry_fields ?ie') \<longrightarrow>
             ?f' < length (entry_fields (entries (par_lists src' ! ?l') ! ?e')) \<and>
             entry_fields (entries (par_lists src' ! ?l') ! ?e') ! ?f' = entry_fields ?ie' ! ?f')"
        using ty' il' by (simp add: settled_def Let_def)
      show ?thesis
      proof (cases "?l' = ?l \<and> ?e' = ?e")
        case False
        with rf(4) [OF l' e'] have
          "entry_fields (entries (par_lists src' ! ?l') ! ?e') = entry_fields ?se'"
          by auto
        with old goal show ?thesis by simp
      next
        case same: True
        with last last' have "?i' = ?i"
          using is_last_named_unique by metis
        with same have ie: "?ie' = ?ie" by simp
        from same new have new': "entry_fields (entries (par_lists src' ! ?l') ! ?e') = fs"
          by simp
        show ?thesis
        proof (cases "?f' = ?f")
          case True
          with fl fat ie new' goal show ?thesis by simp
        next
          case False
          show ?thesis
            unfolding goal new'
          proof
            assume "?f' < length (entry_fields ?ie')"
            with old have a: "?f' < length (entry_fields ?se')"
              and b: "entry_fields ?se' ! ?f' = entry_fields ?ie' ! ?f'"
              by simp_all
            from a same have a': "?f' < length (entry_fields ?se)" by simp
            from fother [OF a' False] same b have "fs ! ?f' = entry_fields ?ie' ! ?f'"
              by simp
            moreover from a' fl(1) have "?f' < length fs" by linarith
            ultimately show "?f' < length fs \<and> fs ! ?f' = entry_fields ?ie' ! ?f'"
              by simp
          qed
        qed
      qed
    qed
    from step cnt ext self pres show ?thesis by auto
  qed
qed

lemma pad_lists_facts:
  assumes "0 \<le> ili"
  shows "nat ili < length (pad_lists ls ili)"
    and "length ls \<le> length (pad_lists ls ili)"
    and "\<And>k. k < length ls \<Longrightarrow> pad_lists ls ili ! k = ls ! k"
    and "nat ili < length ls \<Longrightarrow> pad_lists ls ili = ls"
  using assms by (simp_all add: pad_lists_def nth_append)

lemma copied_fields:
  "map (\<lambda>f. \<lparr>dtype = dtype f, fvalue = copy_value (fvalue f)\<rparr>) fs = fs"
  by (induction fs) (simp_all add: copy_value_def)

lemma merge_input_only_resolved:
  assumes "0 \<le> inp_li d" "nat (inp_li d) < length (par_lists inp)"
    and "0 \<le> inp_ei d" "nat (inp_ei d) < length (entries (par_lists inp ! nat (inp_li d)))"
  shows "merge_input_only inp d (src, c, a) =
     (let ie = entries (par_lists inp ! nat (inp_li d)) ! nat (inp_ei d);
          ls = pad_lists (par_lists src) (inp_li d);
          target = ls ! nat (inp_li d)
      in if name ie \<in> name ` set (entries target)
         then Inr (src\<lparr>par_lists := ls\<rparr>, c, a)
         else Inr (src\<lparr>par_lists := ls[nat (inp_li d) :=
                     target\<lparr>entries := entries target @ [ie]\<rparr>]\<rparr>, c, a + 1))"
proof -
  let ?ie = "entries (par_lists inp ! nat (inp_li d)) ! nat (inp_ei d)"
  have g: "py_get (entries (par_lists inp ! nat (inp_li d))) (inp_ei d) = Inr ?ie"
    using assms(3,4) by (rule py_get_nonneg)
  have c3: "inp_li d < int (length (par_lists inp))" using assms(1,2) by linarith
  have ex: "(\<exists>e \<in> set es. name e = name ?ie) \<longleftrightarrow> name ?ie \<in> name ` set es" for es
    by (metis (no_types, lifting) image_iff)
  have rebuilt: "\<lparr>name = name ?ie, unknown_byte = unknown_byte ?ie,
       unknown_u16a = unknown_u16a ?ie, unknown_u16b = unknown_u16b ?ie,
       entry_fields = entry_fields ?ie\<rparr> = ?ie"
    by simp
  show ?thesis
    unfolding merge_input_only_def Let_def
    using assms(1,3) c3 g
    by (simp add: copied_fields ex rebuilt)
qed

lemma input_only_step:
  assumes ty: "diff_type d = InputOnly" and m: "mergeable inp src d"
  shows "\<exists>src' a'. merge_step inp d (src, c, a) = Inr (src', c + counted inp d, a') \<and>
           keeps src src' \<and> settled inp src' d"
proof -
  let ?l = "nat (inp_li d)" and ?i = "nat (inp_ei d)"
  let ?ie = "entries (par_lists inp ! ?l) ! ?i"
  from ty m have l0: "0 \<le> inp_li d" and i0: "0 \<le> inp_ei d"
    and l: "?l < length (par_lists inp)" and i: "?i < length (entries (par_lists inp ! ?l))"
    by (simp_all add: mergeable_def)
  define ls where "ls = pad_lists (par_lists src) (inp_li d)"
  note pl = pad_lists_facts [OF l0, where ls = "par_lists src", folded ls_def]
  note res = merge_input_only_resolved [OF l0 l i0 i, where src = src and c = c and a = a, folded ls_def]
  have cnt: "counted inp d = 0" using ty by (simp add: counted_def)
  show ?thesis
  proof (cases "name ?ie \<in> name ` set (entries (ls ! ?l))")
    case True
    define src' where "src' = src\<lparr>par_lists := ls\<rparr>"
    from res True ty have step: "merge_step inp d (src, c, a) = Inr (src', c, a)"
      by (simp add: merge_step_def Let_def src'_def)
    have k: "keeps src src'"
      unfolding keeps_def using pl(2,3) by (simp add: src'_def)
    have s: "settled inp src' d"
      using ty True pl(1) by (simp add: settled_def src'_def)
    from step k s cnt show ?thesis by auto
  next
    case False
    define src' where
      "src' = src\<lparr>par_lists := ls[?l := (ls ! ?l)\<lparr>entries := entries (ls ! ?l) @ [?ie]\<rparr>]\<rparr>"
    from res False ty have step: "merge_step inp d (src, c, a) = Inr (src', c, a + 1)"
      by (simp add: merge_step_def Let_def src'_def)
    have at: "entries (par_lists src' ! k) =
        (if k = ?l then entries (ls ! k) @ [?ie] else entries (ls ! k))"
      if "k < length ls" for k
      using that by (simp add: src'_def nth_list_update)
    have k: "keeps src src'"
      unfolding keeps_def
    proof (intro conjI allI impI)
      show "length (par_lists src) \<le> length (par_lists src')"
        using pl(2) by (simp add: src'_def)
    next
      fix li assume li: "li < length (par_lists src)"
      with pl(2) have "li < length ls" by linarith
      from at [OF this] pl(3) [OF li]
      show "length (entries (par_lists src ! li)) \<le> length (entries (par_lists src' ! li))"
        by (cases "li = ?l") simp_all
    next
      fix li ei assume li: "li < length (par_lists src)"
        and ei: "ei < length (entries (par_lists src ! li))"
      from li pl(2) have "li < length ls" by linarith
      from at [OF this] pl(3) [OF li] ei
      show "entries (par_lists src' ! li) ! ei = entries (par_lists src ! li) ! ei"
        by (cases "li = ?l") (simp_all add: nth_append)
    qed
    have s: "settled inp src' d"
      using ty pl(1) at [OF pl(1)] by (simp add: settled_def src'_def)
    from step k s cnt show ?thesis by auto
  qed
qed

lemma settled_step:
  assumes m: "mergeable inp src d" and s: "settled inp src d"
  shows "merge_step inp d (src, c, a) = Inr (src, c + counted inp d, a)"
proof (cases "diff_type d")
  case Changed
  let ?l = "nat (src_li d)" and ?e = "nat (src_ei d)" and ?i = "nat (inp_ei d)"
    and ?f = "nat (field_idx d)"
  let ?se = "entries (par_lists src ! ?l) ! ?e"
  let ?ie = "entries (par_lists inp ! ?l) ! ?i"
  from Changed m have f0: "0 \<le> field_idx d" and l0: "0 \<le> src_li d" and e0: "0 \<le> src_ei d"
    and i0: "0 \<le> inp_ei d" and il: "inp_li d = src_li d"
    and l: "?l < length (par_lists src)" and li: "?l < length (par_lists inp)"
    and e: "?e < length (entries (par_lists src ! ?l))"
    and last: "is_last_named (entries (par_lists inp ! ?l)) ?i (name ?se)"
    by (simp_all add: mergeable_def)
  from last have i: "?i < length (entries (par_lists inp ! ?l))"
    by (simp add: is_last_named_def)
  have il0: "0 \<le> inp_li d" using il l0 by simp
  have li': "nat (inp_li d) < length (par_lists inp)" using il li by simp
  have i': "nat (inp_ei d) < length (entries (par_lists inp ! nat (inp_li d)))"
    using il i by simp
  note res = merge_changed_resolved [OF l0 l e0 e il0 li' i0 i' f0, of c a]
  show ?thesis
  proof (cases "?f < length (entry_fields ?ie)")
    case False
    with res Changed show ?thesis
      by (simp add: merge_step_def Let_def il counted_def)
  next
    case True
    with Changed s il have a: "?f < length (entry_fields ?se)"
      and b: "entry_fields ?se ! ?f = entry_fields ?ie ! ?f"
      by (simp_all add: settled_def Let_def)
    from a f0 have "pad_fields (entry_fields ?se) (field_idx d) = entry_fields ?se"
      by (simp add: pad_fields_def)
    with b have "(pad_fields (entry_fields ?se) (field_idx d))[?f := entry_fields ?ie ! ?f]
        = entry_fields ?se"
      by (metis list_update_id)
    from replaced_fields(5) [OF l e this] res True Changed show ?thesis
      by (simp add: merge_step_def Let_def il counted_def)
  qed
next
  case InputOnly
  let ?l = "nat (inp_li d)" and ?i = "nat (inp_ei d)"
  from InputOnly m have l0: "0 \<le> inp_li d" and i0: "0 \<le> inp_ei d"
    and l: "?l < length (par_lists inp)" and i: "?i < length (entries (par_lists inp ! ?l))"
    by (simp_all add: mergeable_def)
  from InputOnly s have sl: "?l < length (par_lists src)"
    and ex: "name (entries (par_lists inp ! ?l) ! ?i) \<in> name ` set (entries (par_lists src ! ?l))"
    by (simp_all add: settled_def)
  from pad_lists_facts(4) [OF l0 sl] have "pad_lists (par_lists src) (inp_li d) = par_lists src" .
  with merge_input_only_resolved [OF l0 l i0 i, where src = src and c = c and a = a] ex InputOnly show ?thesis
    by (simp add: merge_step_def Let_def counted_def)
next
  case SourceOnly
  then show ?thesis by (simp add: merge_step_def counted_def)
qed

lemma merge_step_settles:
  assumes m: "mergeable inp src d"
  shows "\<exists>src' a'. merge_step inp d (src, c, a) = Inr (src', c + counted inp d, a') \<and>
           extends src src' \<and> settled inp src' d \<and>
           (\<forall>d'. mergeable inp src d' \<and> settled inp src d' \<longrightarrow> settled inp src' d')"
proof (cases "diff_type d")
  case Changed
  from changed_step [OF Changed m, of c a] obtain src' where
    step: "merge_step inp d (src, c, a) = Inr (src', c + counted inp d, a)"
    and ext: "extends src src'" and self: "settled inp src' d"
    and ch: "\<And>d'. diff_type d' = Changed \<Longrightarrow> mergeable inp src d' \<Longrightarrow> settled inp src d'
               \<Longrightarrow> settled inp src' d'"
    by blast
  have "settled inp src' d'" if "mergeable inp src d'" "settled inp src d'" for d'
  proof (cases "diff_type d'")
    case Changed
    from ch [OF this that] show ?thesis .
  next
    case InputOnly
    from extends_settled_input_only [OF ext this that(2)] show ?thesis .
  next
    case SourceOnly
    then show ?thesis by (simp add: settled_def)
  qed
  with step ext self show ?thesis by blast
next
  case InputOnly
  from input_only_step [OF InputOnly m, of c a] obtain src' a' where
    step: "merge_step inp d (src, c, a) = Inr (src', c + counted inp d, a')"
    and k: "keeps src src'" and self: "settled inp src' d"
    by blast
  from k have ext: "extends src src'" by (rule keeps_extends)
  have "settled inp src' d'" if "mergeable inp src d'" "settled inp src d'" for d'
  proof (cases "diff_type d'")
    case Changed
    from keeps_settled_changed [OF k this that] show ?thesis .
  next
    case InputOnly
    from extends_settled_input_only [OF ext this that(2)] show ?thesis .
  next
    case SourceOnly
    then show ?thesis by (simp add: settled_def)
  qed
  with step ext self show ?thesis by blast
next
  case SourceOnly
  then have "merge_step inp d (src, c, a) = Inr (src, c + counted inp d, a)"
    by (simp add: merge_step_def counted_def)
  moreover from SourceOnly have "settled inp src d" by (simp add: settled_def)
  ultimately show ?thesis using extends_refl by blast
qed

lemma merge_loop_settles:
  assumes "\<And>d. d \<in> set sel \<Longrightarrow> mergeable inp src d"
    and "\<And>d. d \<in> P \<Longrightarrow> mergeable inp src d \<and> settled inp src d"
  shows "\<exists>src' a'. merge_loop inp sel (src, c, a)
             = Inr (src', c + sum_list (map (counted inp) sel), a') \<and>
           (\<forall>d \<in> P \<union> set sel. mergeable inp src' d \<and> settled inp src' d)"
  using assms
proof (induction sel arbitrary: src c a P)
  case Nil
  then show ?case by simp
next
  case (Cons d sel)
  have md: "mergeable inp src d" by (rule Cons.prems(1)) simp
  from merge_step_settles [OF md, of c a] obtain src1 a1 where
    step: "merge_step inp d (src, c, a) = Inr (src1, c + counted inp d, a1)"
    and ext: "extends src src1" and self: "settled inp src1 d"
    and pres: "\<And>d'. mergeable inp src d' \<Longrightarrow> settled inp src d' \<Longrightarrow> settled inp src1 d'"
    by blast
  have m1: "mergeable inp src1 x" if "x \<in> set sel" for x
    using Cons.prems(1) [of x] that extends_mergeable [OF ext] by simp
  have p1: "mergeable inp src1 x \<and> settled inp src1 x" if "x \<in> insert d P" for x
  proof (cases "x = d")
    case True
    with self extends_mergeable [OF ext md] show ?thesis by simp
  next
    case False
    with that have "x \<in> P" by simp
    from Cons.prems(2) [OF this] pres extends_mergeable [OF ext] show ?thesis by blast
  qed
  from Cons.IH [of src1 "insert d P" "c + counted inp d" a1, OF m1 p1] obtain src' a' where
    loop: "merge_loop inp sel (src1, c + counted inp d, a1)
             = Inr (src', c + counted inp d + sum_list (map (counted inp) sel), a')"
    and all: "\<forall>x \<in> insert d P \<union> set sel. mergeable inp src' x \<and> settled inp src' x"
    by blast
  from step loop have "merge_loop inp (d # sel) (src, c, a)
      = Inr (src', c + sum_list (map (counted inp) (d # sel)), a')"
    by (simp add: add.assoc)
  moreover from all have "\<forall>x \<in> P \<union> set (d # sel). mergeable inp src' x \<and> settled inp src' x"
    by simp
  ultimately show ?case by blast
qed

lemma merge_loop_settled:
  assumes "\<And>d. d \<in> set sel \<Longrightarrow> mergeable inp src d \<and> settled inp src d"
  shows "merge_loop inp sel (src, c, a) = Inr (src, c + sum_list (map (counted inp) sel), a)"
  using assms
proof (induction sel arbitrary: c)
  case Nil
  show ?case by simp
next
  case (Cons d sel)
  from Cons.prems [of d] have "mergeable inp src d" "settled inp src d" by simp_all
  from settled_step [OF this, of c a] Cons.IH [of "c + counted inp d"] Cons.prems
  show ?case by (simp add: add.assoc)
qed

lemma merge_loop_twice:
  assumes "\<And>d. d \<in> set sel \<Longrightarrow> mergeable inp src d"
  shows "\<exists>src' changed added.
           merge_loop inp sel (src, 0, 0) = Inr (src', changed, added) \<and>
           merge_loop inp sel (src', 0, 0) = Inr (src', changed, 0)"
proof -
  from merge_loop_settles [of sel inp src "{}" 0 0, OF assms] obtain src' a' where
    one: "merge_loop inp sel (src, 0, 0) = Inr (src', 0 + sum_list (map (counted inp) sel), a')"
    and all: "\<forall>d \<in> {} \<union> set sel. mergeable inp src' d \<and> settled inp src' d"
    by blast
  from all have "\<And>d. d \<in> set sel \<Longrightarrow> mergeable inp src' d \<and> settled inp src' d" by simp
  from merge_loop_settled [of sel inp src' 0 0, OF this] one show ?thesis by simp
qed

lemma located_last_mergeable:
  assumes "located_last sh li (entries (par_lists src ! li)) (entries (par_lists inp ! li)) d"
    and "li < length (par_lists src)" and "li < length (par_lists inp)"
  shows "mergeable inp src d"
proof (cases "diff_type d")
  case Changed
  with assms(1) have sl: "src_li d = int li" and il: "inp_li d = int li"
    and s0: "0 \<le> src_ei d" and i0: "0 \<le> inp_ei d"
    and ls: "is_last_named (entries (par_lists src ! li)) (nat (src_ei d)) (entry_name d)"
    and li: "is_last_named (entries (par_lists inp ! li)) (nat (inp_ei d)) (entry_name d)"
    and cmp: "compared (sh li (nat (src_ei d)) (nat (field_idx d)))
                (entries (par_lists src ! li) ! nat (src_ei d))
                (entries (par_lists inp ! li) ! nat (inp_ei d)) d"
    by (simp_all add: located_last_def)
  from cmp have f0: "0 \<le> field_idx d" by (simp add: compared_def Let_def)
  from ls have "nat (src_ei d) < length (entries (par_lists src ! li))"
    and "name (entries (par_lists src ! li) ! nat (src_ei d)) = entry_name d"
    by (simp_all add: is_last_named_def)
  with Changed sl il s0 i0 li f0 assms(2,3) show ?thesis
    by (simp add: mergeable_def)
next
  case InputOnly
  with assms(1) have il: "inp_li d = int li" and i0: "0 \<le> inp_ei d"
    and li: "is_last_named (entries (par_lists inp ! li)) (nat (inp_ei d)) (entry_name d)"
    by (simp_all add: located_last_def)
  from li have "nat (inp_ei d) < length (entries (par_lists inp ! li))"
    by (simp add: is_last_named_def)
  with InputOnly il i0 assms(3) show ?thesis by (simp add: mergeable_def)
next
  case SourceOnly
  then show ?thesis by (simp add: mergeable_def)
qed

lemma compare_index_mergeable:
  assumes "compare_index sh labels src inp orig li = Inr zs" and "d \<in> set zs"
  shows "mergeable inp src d"
proof (cases "li < length (par_lists src)")
  case inS: True
  show ?thesis
  proof (cases "li < length (par_lists inp)")
    case True
    from compare_index_shared [OF assms inS True] inS True show ?thesis
      by (rule located_last_mergeable)
  next
    case False
    with inS assms have "d \<in> set (source_only_list li (par_lists src ! li))"
      by (auto simp: compare_index_def nth_opt_def)
    from source_only_list_elem [OF this] show ?thesis by (simp add: mergeable_def)
  qed
next
  case notS: False
  show ?thesis
  proof (cases "li < length (par_lists inp)")
    case True
    with notS assms have "d \<in> set (input_only_list li (par_lists inp ! li))"
      by (auto simp: compare_index_def nth_opt_def)
    from input_only_list_elem [OF this] True show ?thesis by (simp add: mergeable_def)
  next
    case False
    with notS assms show ?thesis by (simp add: compare_index_def nth_opt_def)
  qed
qed

lemma compare_mergeable:
  assumes "cmp_run_compare sh labels src inp orig = Inr ds" and "d \<in> set ds"
  shows "mergeable inp src d"
proof -
  from assms(1) obtain n where
    c: "collect (compare_index sh labels src inp orig) [0 ..< n] = Inr ds"
    by (simp add: cmp_run_compare_def Let_def)
  from collect_Inr_elem [OF c assms(2)] obtain li zs where
    "compare_index sh labels src inp orig li = Inr zs" and "d \<in> set zs"
    by blast
  then show ?thesis by (rule compare_index_mergeable)
qed

lemma selected_diffs_subset: "d \<in> set (selected_diffs ds cs) \<Longrightarrow> d \<in> set ds"
  by (auto simp: selected_diffs_def in_set_enumerate_eq)

text \<open>
  C6 (amended). For every source and input on which the compare returns, and every
  choice of checkboxes over the records it returns for them, \<^verbatim>\<open>_cmp_merge\<close> returns, and
  applied a second time to the merged source with the same records and checkboxes it
  returns the same source: no entry is appended (\<^verbatim>\<open>added_count\<close> is 0), and the fields
  it writes already hold the values written, \<^verbatim>\<open>changed_count\<close> being the same as in the
  first application.
\<close>

theorem merge_idempotent_on_compared:
  assumes "cmp_run_compare sh labels src inp orig = Inr ds"
  shows "\<exists>src' changed added.
           cmp_merge src inp ds cs = Inr (src', changed, added) \<and>
           cmp_merge src' inp ds cs = Inr (src', changed, 0)"
proof (cases "selected_diffs ds cs = []")
  case True
  then show ?thesis by (simp add: cmp_merge_def)
next
  case False
  have "mergeable inp src d" if "d \<in> set (selected_diffs ds cs)" for d
    using compare_mergeable [OF assms] selected_diffs_subset [OF that] by blast
  from merge_loop_twice [of "selected_diffs ds cs" inp src, OF this] False show ?thesis
    by (simp add: cmp_merge_def)
qed

lemmas compare_lists_sorted =
  compare_lists_def [unfolded Let_def sorted_list_of_set_sort_remdups]

lemmas cmp_sorted_defs = cmp_run_compare_def compare_index_def nth_opt_def
  compare_lists_sorted by_name_def compare_name_def compare_field_def cmp_fields_equal_def
  py_eq_sharing_def f32_float_def cmp_field_value_str_def no_sharing_def list_le_def
  list_less_def

lemma compared_10_12_7:
  "cmp_run_compare no_sharing no_labels src_10 inp_12_7 None = Inr [changed_record, added_record]"
  by (simp add: src_10_def inp_12_7_def changed_record_def added_record_def ex_defs
      cmp_sorted_defs)

lemma merged_10_12_7:
  "cmp_merge src_10 inp_12_7 [changed_record, added_record] all_checked
     = Inr (merged_12_7, 1, 1)"
  by (simp add: merge_defs src_10_def inp_12_7_def merged_12_7_def changed_record_def
      added_record_def all_checked_def ex_defs)

theorem merge_idempotent_on_compared_witness:
  "cmp_run_compare no_sharing no_labels src_10 inp_12_7 None = Inr [changed_record, added_record] \<and>
   cmp_merge src_10 inp_12_7 [changed_record, added_record] all_checked
     = Inr (merged_12_7, 1, 1) \<and>
   cmp_merge merged_12_7 inp_12_7 [changed_record, added_record] all_checked
     = Inr (merged_12_7, 1, 0)"
  using merge_idempotent_on_compared [OF compared_10_12_7, of all_checked]
    compared_10_12_7 merged_10_12_7
  by simp

lemma compared_stale:
  "cmp_run_compare no_sharing no_labels stale_src inp_12_7 None = Inr [stale_record, added_record]"
  by (simp add: stale_src_def inp_12_7_def stale_record_def added_record_def ex_defs
      cmp_sorted_defs)

text \<open>
  C6 as stated fails on records that were not computed from the source they are
  merged into. \<^verbatim>\<open>self.cmp_diffs\<close> is rebuilt by \<^verbatim>\<open>_cmp_run_compare\<close> only, so the records
  computed for one source are still in place after another source is loaded. The two
  records below are the compare's result for \<open>stale_src\<close>; merged into \<open>src_10\<close>,
  the \<open>Changed\<close> record finds no entry 1 in the first round, and in the second round
  it overwrites the field of the entry the first round appended.
\<close>

theorem merge_not_idempotent_on_stale_records:
  "cmp_run_compare no_sharing no_labels stale_src inp_12_7 None = Inr [stale_record, added_record] \<and>
   cmp_merge src_10 inp_12_7 [stale_record, added_record] all_checked
     = Inr (merged_once, 0, 1) \<and>
   cmp_merge merged_once inp_12_7 [stale_record, added_record] all_checked
     = Inr (merged_twice, 1, 0) \<and>
   merged_twice \<noteq> merged_once"
  using compared_stale
  by (simp add: merge_defs src_10_def inp_12_7_def merged_once_def merged_twice_def
      stale_record_def added_record_def all_checked_def ex_defs)

end
